theory Spec2Isabelle
  imports Main "HOL-Library.Word"
begin

unbundle bit_operations_syntax

section \<open>The register window of the 16550 UART\<close>

text \<open>
  The driver \<^verbatim>\<open>src/drivers/serial/uart.c\<close> touches the controller only through
  \<^verbatim>\<open>uart_read_reg\<close> and \<^verbatim>\<open>uart_write_reg\<close>, single-byte volatile accesses at
  \<^verbatim>\<open>UART0 + reg\<close>. The base address \<^verbatim>\<open>UART0\<close> comes from \<^verbatim>\<open>platform.h\<close>; a register
  is identified here by its offset \<open>reg\<close> alone.

  The controller is the environment of the driver. It is modelled by what the driver can
  observe of it: for every register offset, the list of values the next reads of that
  register will return (\<open>pending\<close>), and the list of all accesses made so far, in
  program order (\<open>trace\<close>). Any deterministic device, whatever its internal state, gives
  such lists on a run of the driver. The lists are finite: a read of a register whose
  list is exhausted ends the run with \<open>Starved\<close>, carrying the machine as it stood. For
  the two polling loops this is the fuel of the loop: \<open>Starved\<close> says that the call has
  not returned within the observed behaviour of the device.
\<close>

type_synonym u8 = "8 word"

datatype access = Rd nat u8 | Wr nat u8

datatype hw = Hw (pending: "nat \<Rightarrow> u8 list") (trace: "access list")

text \<open>
  A run ends in one of three ways: it returns (\<open>Done\<close>), it is still waiting for the
  device when the observation ends (\<open>Starved\<close>), or it reads a character array past its
  end (\<open>Overrun\<close>, undefined behaviour in C).
\<close>

datatype 'a outcome = Done 'a | Starved hw | Overrun hw

fun andthen :: "'a outcome \<Rightarrow> ('a \<Rightarrow> 'b outcome) \<Rightarrow> 'b outcome" where
  "andthen (Done a) f = f a"
| "andthen (Starved h) f = Starved h"
| "andthen (Overrun h) f = Overrun h"

text \<open>The register map: \<^verbatim>\<open>#define RHR 0\<close> ... \<^verbatim>\<open>#define SPR 7\<close>.\<close>

abbreviation (input) RHR :: nat where "RHR \<equiv> 0"
abbreviation (input) THR :: nat where "THR \<equiv> 0"
abbreviation (input) DLL :: nat where "DLL \<equiv> 0"
abbreviation (input) IER :: nat where "IER \<equiv> 1"
abbreviation (input) DLM :: nat where "DLM \<equiv> 1"
abbreviation (input) ISR :: nat where "ISR \<equiv> 2"
abbreviation (input) FCR :: nat where "FCR \<equiv> 2"
abbreviation (input) LCR :: nat where "LCR \<equiv> 3"
abbreviation (input) MCR :: nat where "MCR \<equiv> 4"
abbreviation (input) LSR :: nat where "LSR \<equiv> 5"
abbreviation (input) MSR :: nat where "MSR \<equiv> 6"
abbreviation (input) SPR :: nat where "SPR \<equiv> 7"

text \<open>\<^verbatim>\<open>#define LSR_RX_READY (1 << 0)\<close> and \<^verbatim>\<open>#define LSR_TX_IDLE (1 << 5)\<close>.\<close>

definition LSR_RX_READY :: u8 where
  "LSR_RX_READY = push_bit 0 1"

definition LSR_TX_IDLE :: u8 where
  "LSR_TX_IDLE = push_bit 5 1"

text \<open>\<^verbatim>\<open>#define uart_read_reg(reg) (*(UART_REG(reg)))\<close>\<close>

definition uart_read_reg :: "nat \<Rightarrow> hw \<Rightarrow> (u8 \<times> hw) outcome" where
  "uart_read_reg reg h =
     (case pending h reg of
        [] \<Rightarrow> Starved h
      | v # vs \<Rightarrow>
          Done (v, Hw ((pending h)(reg := vs)) (trace h @ [Rd reg v])))"

text \<open>\<^verbatim>\<open>#define uart_write_reg(reg, v) (*(UART_REG(reg)) = (v))\<close>\<close>

definition uart_write_reg :: "nat \<Rightarrow> u8 \<Rightarrow> hw \<Rightarrow> hw" where
  "uart_write_reg reg v h = Hw (pending h) (trace h @ [Wr reg v])"

section \<open>Initialization\<close>

text \<open>
  \<^verbatim>\<open>uart_init\<close>, statement by statement. The local \<^verbatim>\<open>lcr\<close> is assigned twice in the
  source: first the value read, then the constant 0.
\<close>

definition uart_init :: "hw \<Rightarrow> hw outcome" where
  "uart_init h =
     (let h1 = uart_write_reg IER 0x00 h in
      andthen (uart_read_reg LCR h1) (\<lambda>(lcr, h2).
        let h3 = uart_write_reg LCR (lcr OR push_bit 7 1) h2;
            h4 = uart_write_reg DLL 0x03 h3;
            h5 = uart_write_reg DLM 0x00 h4;
            lcr = (0 :: u8);
            h6 = uart_write_reg LCR (lcr OR push_bit 0 3) h5
        in andthen (uart_read_reg IER h6) (\<lambda>(ier, h7).
             Done (uart_write_reg IER (ier OR push_bit 0 1) h7))))"

section \<open>Byte transfer\<close>

text \<open>
  \<^verbatim>\<open>while ((uart_read_reg(LSR) & LSR_TX_IDLE) == 0);\<close> Every turn of the loop reads the
  Line Status register once.
\<close>

function putc_wait :: "hw \<Rightarrow> hw outcome" where
  "putc_wait h =
     (case uart_read_reg LSR h of
        Done (v, h') \<Rightarrow> if v AND LSR_TX_IDLE = 0 then putc_wait h' else Done h'
      | Starved x \<Rightarrow> Starved x
      | Overrun x \<Rightarrow> Overrun x)"
  by pat_completeness auto
termination
  by (relation "measure (\<lambda>h. length (pending h LSR))")
     (auto simp: uart_read_reg_def split: list.splits)

declare putc_wait.simps [simp del]

definition uart_putc :: "u8 \<Rightarrow> hw \<Rightarrow> hw outcome" where
  "uart_putc ch h = andthen (putc_wait h) (\<lambda>h'. Done (uart_write_reg THR ch h'))"

text \<open>
  \<^verbatim>\<open>while (*s) { uart_putc(*s++); }\<close> The argument is the character array \<open>s\<close> points
  into, from \<open>s\<close> on.
\<close>

fun uart_puts :: "u8 list \<Rightarrow> hw \<Rightarrow> hw outcome" where
  "uart_puts [] h = Overrun h"
| "uart_puts (c # s) h =
     (if c \<noteq> 0 then andthen (uart_putc c h) (uart_puts s) else Done h)"

text \<open>\<^verbatim>\<open>while ((uart_read_reg(LSR) & LSR_RX_READY) == 0);\<close>\<close>

function getc_wait :: "hw \<Rightarrow> hw outcome" where
  "getc_wait h =
     (case uart_read_reg LSR h of
        Done (v, h') \<Rightarrow> if v AND LSR_RX_READY = 0 then getc_wait h' else Done h'
      | Starved x \<Rightarrow> Starved x
      | Overrun x \<Rightarrow> Overrun x)"
  by pat_completeness auto
termination
  by (relation "measure (\<lambda>h. length (pending h LSR))")
     (auto simp: uart_read_reg_def split: list.splits)

declare getc_wait.simps [simp del]

definition uart_getc :: "hw \<Rightarrow> (u8 \<times> hw) outcome" where
  "uart_getc h = andthen (getc_wait h) (\<lambda>h'. uart_read_reg RHR h')"

section \<open>Line transfer\<close>

text \<open>
  \<^verbatim>\<open>uart_gets(char *s)\<close> writes through the cursor \<^verbatim>\<open>t\<close> into the caller's memory. Memory
  is a map from addresses to bytes; addresses are integers, so that a cursor below the
  buffer start is a value of the model like any other, and pointer arithmetic does not
  wrap. The source has no buffer size, and neither has the model: every address can be
  written. The memory written through \<^verbatim>\<open>t\<close> is taken to be apart from the register window
  and from the string literal \<^verbatim>\<open>"\b \b"\<close>, which is the array of bytes 8, 32, 8, 0.
  A \<^verbatim>\<open>char\<close> is a byte; the constants it is compared with (\<^verbatim>\<open>'\r'\<close> = 13, \<^verbatim>\<open>'\b'\<close> = 8,
  \<^verbatim>\<open>0x7f\<close>) are below 128, so the comparisons do not depend on the signedness of
  \<^verbatim>\<open>char\<close>.

  One turn of \<^verbatim>\<open>while (1) { ... }\<close> either leaves the loop (\<open>Break\<close>, the
  \<^verbatim>\<open>break\<close> of the carriage-return branch) or goes round again (\<open>Continue\<close>). The
  loop state is the cursor \<open>t\<close>, the memory and the machine.
\<close>

type_synonym memory = "int \<Rightarrow> u8"

datatype 'a ctl = Continue 'a | Break 'a

definition gets_body ::
  "int \<Rightarrow> int \<times> memory \<times> hw \<Rightarrow> (int \<times> memory \<times> hw) ctl outcome" where
  "gets_body s = (\<lambda>(t, mem, h).
     andthen (uart_getc h) (\<lambda>(ch, h1).
       if ch = 0x0D then
         andthen (uart_putc 0x0D h1) (\<lambda>h2.
         andthen (uart_putc 0x0A h2) (\<lambda>h3.
           Done (Break (t, mem(t := 0x00), h3))))
       else if ch = 0x08 \<or> ch = 0x7F then
         (if t > s then
            andthen (uart_puts [0x08, 0x20, 0x08, 0x00] h1) (\<lambda>h2.
              Done (Continue (t - 1, mem, h2)))
          else Done (Continue (t, mem, h1)))
       else
         andthen (uart_putc ch h1) (\<lambda>h2.
           Done (Continue (t + 1, mem(t := ch), h2)))))"

function gets_loop ::
  "int \<Rightarrow> int \<times> memory \<times> hw \<Rightarrow> (int \<times> memory \<times> hw) outcome" where
  "gets_loop s st =
     (case gets_body s st of
        Done (Continue st') \<Rightarrow> gets_loop s st'
      | Done (Break st') \<Rightarrow> Done st'
      | Starved x \<Rightarrow> Starved x
      | Overrun x \<Rightarrow> Overrun x)"
  by pat_completeness auto
termination
proof (relation "measure (\<lambda>(s, t, mem, h). length (pending h RHR))")
  show "wf (measure (\<lambda>(s, t, mem, h). length (pending h RHR)))"
    by simp
next
  have tx: "pending h' RHR = pending h RHR" if "putc_wait h = Done h'" for h h'
    using that
  proof (induction h rule: putc_wait.induct)
    case (1 h)
    then show ?case
      by (subst (asm) putc_wait.simps)
         (auto simp: uart_read_reg_def split: list.splits if_splits)
  qed
  have rx: "pending h' RHR = pending h RHR" if "getc_wait h = Done h'" for h h'
    using that
  proof (induction h rule: getc_wait.induct)
    case (1 h)
    then show ?case
      by (subst (asm) getc_wait.simps)
         (auto simp: uart_read_reg_def split: list.splits if_splits)
  qed
  have putc: "pending h' RHR = pending h RHR" if "uart_putc c h = Done h'" for c h h'
    using that tx [of h]
    by (cases "putc_wait h") (auto simp: uart_putc_def uart_write_reg_def)
  have puts: "pending h' RHR = pending h RHR" if "uart_puts cs h = Done h'" for cs h h'
    using that
  proof (induction cs arbitrary: h)
    case Nil
    then show ?case by simp
  next
    case (Cons c cs)
    then show ?case
      using putc [of c h]
      by (cases "uart_putc c h") (auto split: if_splits)
  qed
  have getc: "pending h RHR = ch # pending h' RHR" if "uart_getc h = Done (ch, h')" for ch h h'
    using that rx [of h]
    by (cases "getc_wait h") (auto simp: uart_getc_def uart_read_reg_def split: list.splits)
  fix s :: int and st x2 st'
  assume body: "gets_body s st = Done x2" and x2: "x2 = Continue st'"
  obtain t mem h where st: "st = (t, mem, h)"
    by (cases st)
  obtain t' mem' h' where st': "st' = (t', mem', h')"
    by (cases st')
  from body x2 st st' obtain ch h1 where g: "uart_getc h = Done (ch, h1)"
    by (cases "uart_getc h") (auto simp: gets_body_def)
  have "pending h' RHR = pending h1 RHR"
  proof (cases "ch = 0x0D")
    case True
    with body x2 st st' g obtain h2 where cr: "uart_putc 0x0D h1 = Done h2"
      by (cases "uart_putc 0x0D h1") (auto simp: gets_body_def)
    with True body x2 st st' g have lf: "uart_putc 0x0A h2 = Done h'"
      by (cases "uart_putc 0x0A h2") (auto simp: gets_body_def)
    from putc [OF cr] putc [OF lf] show ?thesis
      by simp
  next
    case cr: False
    show ?thesis
    proof (cases "ch = 0x08 \<or> ch = 0x7F")
      case True
      with cr body x2 st st' g puts [of "[0x08, 0x20, 0x08, 0x00]" h1] show ?thesis
        by (cases "uart_puts [0x08, 0x20, 0x08, 0x00] h1")
           (auto simp: gets_body_def split: if_splits)
    next
      case False
      with cr body x2 st st' g putc [of ch h1] show ?thesis
        by (cases "uart_putc ch h1") (auto simp: gets_body_def)
    qed
  qed
  with getc [OF g] st st'
  show "((s, st'), (s, st)) \<in> measure (\<lambda>(s, t, mem, h). length (pending h RHR))"
    by simp
qed

declare gets_loop.simps [simp del]

text \<open>
  \<^verbatim>\<open>char *t = s; while (1) { ... } return t - s;\<close> The pointer difference is converted
  to the return type \<^verbatim>\<open>uint64_t\<close>.
\<close>

definition uart_gets :: "int \<Rightarrow> memory \<Rightarrow> hw \<Rightarrow> (64 word \<times> memory \<times> hw) outcome" where
  "uart_gets s mem h =
     andthen (gets_loop s (s, mem, h)) (\<lambda>(t, mem', h').
       Done (word_of_int (t - s), mem', h'))"

section \<open>Observations\<close>

text \<open>
  What a test with a simulated register window can see of a run: the values read from a
  register and the values written to it, in order; the accesses other than the polls of
  Line Status; the bytes held by the buffer from its start.
\<close>

fun reads_of :: "nat \<Rightarrow> access list \<Rightarrow> u8 list" where
  "reads_of r [] = []"
| "reads_of r (Rd q v # tr) = (if q = r then v # reads_of r tr else reads_of r tr)"
| "reads_of r (Wr q v # tr) = reads_of r tr"

fun writes_to :: "nat \<Rightarrow> access list \<Rightarrow> u8 list" where
  "writes_to r [] = []"
| "writes_to r (Rd q v # tr) = writes_to r tr"
| "writes_to r (Wr q v # tr) = (if q = r then v # writes_to r tr else writes_to r tr)"

fun is_poll :: "access \<Rightarrow> bool" where
  "is_poll (Rd r v) = (r = LSR)"
| "is_poll (Wr r v) = False"

definition unpolled :: "access list \<Rightarrow> access list" where
  "unpolled tr = filter (\<lambda>a. \<not> is_poll a) tr"

definition stored :: "memory \<Rightarrow> int \<Rightarrow> nat \<Rightarrow> u8 list" where
  "stored mem s n = map (\<lambda>i. mem (s + int i)) [0..<n]"

text \<open>
  The value a register holds, for a register that keeps what is written to it: the value
  last written. \<open>line_control\<close> is that value for Line Control, \<open>None\<close> before the first
  write.
\<close>

definition line_control :: "access list \<Rightarrow> u8 option" where
  "line_control tr =
     (if writes_to LCR tr = [] then None else Some (last (writes_to LCR tr)))"

text \<open>
  The accesses of data transfer: reads of Line Status, reads of the Receive Holding
  Register, writes of the Transmit Holding Register. \<open>transfer_only h x\<close> says that the
  machine \<open>x\<close> was reached from \<open>h\<close> by such accesses alone. \<open>machine\<close> is the machine at
  the end of a run, however it ended.
\<close>

fun transfer_access :: "access \<Rightarrow> bool" where
  "transfer_access (Rd r v) = (r = LSR \<or> r = RHR)"
| "transfer_access (Wr r v) = (r = THR)"

definition transfer_only :: "hw \<Rightarrow> hw \<Rightarrow> bool" where
  "transfer_only h x \<longleftrightarrow>
     take (length (trace h)) (trace x) = trace h \<and>
     list_all transfer_access (drop (length (trace h)) (trace x))"

fun machine :: "('a \<Rightarrow> hw) \<Rightarrow> 'a outcome \<Rightarrow> hw" where
  "machine f (Done a) = f a"
| "machine f (Starved x) = x"
| "machine f (Overrun x) = x"

fun ctl_state :: "'a ctl \<Rightarrow> 'a" where
  "ctl_state (Continue a) = a"
| "ctl_state (Break a) = a"

text \<open>
  \<open>tally s k st\<close> runs \<open>k\<close> turns of the loop of \<^verbatim>\<open>uart_gets\<close> from the loop state
  \<open>st\<close> and counts them as the source branches: a turn whose byte is neither a backspace
  nor a DEL is an ordinary turn; a turn whose byte is one of the two and that finds the
  cursor past the buffer start (\<^verbatim>\<open>t > s\<close>) is an erasing turn. The result is \<open>None\<close> when
  the loop does not go round \<open>k\<close> times.
\<close>

fun tally ::
  "int \<Rightarrow> nat \<Rightarrow> int \<times> memory \<times> hw \<Rightarrow> (nat \<times> nat \<times> (int \<times> memory \<times> hw)) option" where
  "tally s 0 st = Some (0, 0, st)"
| "tally s (Suc k) st =
     (case gets_body s st of
        Done (Continue st1) \<Rightarrow>
          (case tally s k st1 of
             None \<Rightarrow> None
           | Some (ord, era, st') \<Rightarrow>
               (case uart_getc (snd (snd st)) of
                  Done (ch, h1) \<Rightarrow>
                    if ch = 0x08 \<or> ch = 0x7F then
                      (if fst st > s then Some (ord, Suc era, st') else Some (ord, era, st'))
                    else Some (Suc ord, era, st')
                | Starved x \<Rightarrow> None
                | Overrun x \<Rightarrow> None))
      | Done (Break st1) \<Rightarrow> None
      | Starved x \<Rightarrow> None
      | Overrun x \<Rightarrow> None)"

section \<open>Reference behaviour\<close>

text \<open>
  The behaviour the specification describes, written from its words, for comparison with
  the functions above.

  \<open>putc_each\<close>: \<^verbatim>\<open>put_byte\<close> called on each character of a list in turn, and nothing
  else.
\<close>

fun putc_each :: "u8 list \<Rightarrow> hw \<Rightarrow> hw outcome" where
  "putc_each [] h = Done h"
| "putc_each (c # cs) h = andthen (uart_putc c h) (putc_each cs)"

text \<open>
  The line editor of section 4.4 of the specification on the bytes before the carriage
  return: a backspace or a DEL removes the last character of the line if there is one,
  and echoes backspace, space, backspace; on the empty line it does nothing; any other
  byte is appended and echoed. \<open>edit_line ln cs\<close> is the line after the bytes \<open>cs\<close>,
  from the line \<open>ln\<close>; \<open>edit_io ln cs\<close> is the sequence of data-register accesses: the
  read of each byte, followed by its echo.
\<close>

fun edit_line :: "u8 list \<Rightarrow> u8 list \<Rightarrow> u8 list" where
  "edit_line ln [] = ln"
| "edit_line ln (c # cs) =
     (if c = 0x08 \<or> c = 0x7F then edit_line (butlast ln) cs else edit_line (ln @ [c]) cs)"

fun edit_io :: "u8 list \<Rightarrow> u8 list \<Rightarrow> access list" where
  "edit_io ln [] = []"
| "edit_io ln (c # cs) =
     Rd RHR c #
     (if c = 0x08 \<or> c = 0x7F then
        (if ln = [] then edit_io ln cs
         else Wr THR 0x08 # Wr THR 0x20 # Wr THR 0x08 # edit_io (butlast ln) cs)
      else Wr THR c # edit_io (ln @ [c]) cs)"

text \<open>
  One turn of the loop as the specification describes it, by the byte \<open>c\<close> read: the
  data-register accesses of the turn, and the loop state it leaves, \<open>h'\<close> being the
  machine after the turn.
\<close>

definition turn ::
  "int \<Rightarrow> int \<Rightarrow> memory \<Rightarrow> u8 \<Rightarrow> hw \<Rightarrow> access list \<times> (int \<times> memory \<times> hw) ctl" where
  "turn s t mem c h' =
     (if c = 0x0D then ([Rd RHR c, Wr THR 0x0D, Wr THR 0x0A], Break (t, mem(t := 0x00), h'))
      else if c = 0x08 \<or> c = 0x7F then
        (if t > s then
           ([Rd RHR c, Wr THR 0x08, Wr THR 0x20, Wr THR 0x08], Continue (t - 1, mem, h'))
         else ([Rd RHR c], Continue (t, mem, h')))
      else ([Rd RHR c, Wr THR c], Continue (t + 1, mem(t := c), h')))"

text \<open>
  Backspace for DEL. \<open>del_to_bs\<close> replaces the byte \<open>0x7F\<close> by \<open>0x08\<close>; \<open>retype d\<close>
  applies a byte map \<open>d\<close> to the value of a data-register read and leaves every other
  access as it is. \<open>bs_for_del h x\<close> is the machine \<open>x\<close>, reached from \<open>h\<close>, with
  backspace for DEL in the input still pending and in the data-register reads made since
  \<open>h\<close>.
\<close>

definition del_to_bs :: "u8 \<Rightarrow> u8" where
  "del_to_bs c = (if c = 0x7F then 0x08 else c)"

fun retype :: "(u8 \<Rightarrow> u8) \<Rightarrow> access \<Rightarrow> access" where
  "retype d (Rd r v) = (if r = RHR then Rd r (d v) else Rd r v)"
| "retype d (Wr r v) = Wr r v"

definition bs_for_del :: "hw \<Rightarrow> hw \<Rightarrow> hw" where
  "bs_for_del h x =
     Hw ((pending x)(RHR := map del_to_bs (pending x RHR)))
        (trace h @ map (retype del_to_bs) (drop (length (trace h)) (trace x)))"

section \<open>Vocabulary of the proofs\<close>

text \<open>
  \<open>run h ev h'\<close>: the machine \<open>h'\<close> is reached from \<open>h\<close> by the accesses \<open>ev\<close>, the
  reads among them having consumed the scripts of \<open>h\<close>.
\<close>

definition run :: "hw \<Rightarrow> access list \<Rightarrow> hw \<Rightarrow> bool" where
  "run h ev h' \<longleftrightarrow>
     trace h' = trace h @ ev \<and> (\<forall>r. pending h r = reads_of r ev @ pending h' r)"

text \<open>
  \<open>line_result\<close>: what the loop of \<^verbatim>\<open>uart_gets\<close> gives when entered with \<open>n\<close> bytes in
  the buffer and the input \<open>body\<close>, a carriage return, \<open>rest\<close>: it is still waiting for
  a status bit at the end of the status script, or it has returned the edited line.
\<close>

definition line_result ::
  "int \<Rightarrow> nat \<Rightarrow> memory \<Rightarrow> hw \<Rightarrow> u8 list \<Rightarrow> u8 list \<Rightarrow>
   (int \<times> memory \<times> hw) outcome \<Rightarrow> bool" where
  "line_result s n mem h body rest out \<longleftrightarrow>
     (\<exists>x. out = Starved x \<and> pending x LSR = []) \<or>
     (\<exists>mem' h' ev.
        out = Done (s + int (length (edit_line (stored mem s n) body)), mem', h') \<and>
        run h ev h' \<and> pending h' RHR = rest \<and>
        unpolled ev =
          edit_io (stored mem s n) body @ [Rd RHR 0x0D, Wr THR 0x0D, Wr THR 0x0A] \<and>
        stored mem' s (length (edit_line (stored mem s n) body)) =
          edit_line (stored mem s n) body \<and>
        mem' (s + int (length (edit_line (stored mem s n) body))) = 0x00 \<and>
        (\<forall>a. a < s \<longrightarrow> mem' a = mem a))"

text \<open>
  \<open>rekey d pre h\<close>: the machine \<open>h\<close> with the byte map \<open>d\<close> applied to its pending
  input and to the data-register reads of its trace, and the accesses \<open>pre\<close> put before
  its trace. \<open>same_keys d\<close>: the map \<open>d\<close> sends a backspace or a DEL to one of the two,
  and no other byte anywhere else. \<open>rekey_out\<close> carries a change of machine through an
  outcome.
\<close>

definition rekey :: "(u8 \<Rightarrow> u8) \<Rightarrow> access list \<Rightarrow> hw \<Rightarrow> hw" where
  "rekey d pre h =
     Hw ((pending h)(RHR := map d (pending h RHR))) (pre @ map (retype d) (trace h))"

fun rekey_out :: "(hw \<Rightarrow> hw) \<Rightarrow> ('a \<Rightarrow> 'b) \<Rightarrow> 'a outcome \<Rightarrow> 'b outcome" where
  "rekey_out T f (Done a) = Done (f a)"
| "rekey_out T f (Starved x) = Starved (T x)"
| "rekey_out T f (Overrun x) = Overrun (T x)"

definition same_keys :: "(u8 \<Rightarrow> u8) \<Rightarrow> bool" where
  "same_keys d \<longleftrightarrow>
     (\<forall>c. if c = 0x08 \<or> c = 0x7F then d c = 0x08 \<or> d c = 0x7F else d c = c)"

section \<open>Status bits\<close>

lemma tx_idle_iff: "(v AND LSR_TX_IDLE = 0) = (\<not> bit v 5)"
  unfolding LSR_TX_IDLE_def push_bit_of_1 by (rule and_exp_eq_0_iff_not_bit)

lemma rx_ready_iff: "(v AND LSR_RX_READY = 0) = (\<not> bit v 0)"
  unfolding LSR_RX_READY_def push_bit_of_1 by (rule and_exp_eq_0_iff_not_bit)

section \<open>The polling loops in closed form\<close>

text \<open>
  A polling loop reads Line Status until the first value with the awaited bit set. If the
  status script has such a value, the loop returns having read exactly the values up to
  and including it; if it has none, the loop reads the whole script and is still waiting.
\<close>

lemma putc_wait_ready:
  "pending h LSR = vs @ v # rest \<Longrightarrow> \<forall>x\<in>set vs. \<not> bit x 5 \<Longrightarrow> bit v 5 \<Longrightarrow>
   putc_wait h =
     Done (Hw ((pending h)(LSR := rest)) (trace h @ map (Rd LSR) vs @ [Rd LSR v]))"
proof (induction vs arbitrary: h)
  case Nil
  then show ?case
    by (subst putc_wait.simps) (simp add: uart_read_reg_def tx_idle_iff)
next
  case (Cons a vs)
  show ?case
    using Cons.prems
    by (subst putc_wait.simps) (simp add: uart_read_reg_def tx_idle_iff Cons.IH fun_eq_iff)
qed

lemma putc_wait_never:
  "\<forall>x\<in>set (pending h LSR). \<not> bit x 5 \<Longrightarrow>
   putc_wait h =
     Starved (Hw ((pending h)(LSR := [])) (trace h @ map (Rd LSR) (pending h LSR)))"
proof (induction "pending h LSR" arbitrary: h)
  case Nil
  then show ?case
    by (subst putc_wait.simps) (simp add: uart_read_reg_def fun_upd_idem)
next
  case (Cons a vs)
  let ?h1 = "Hw ((pending h)(LSR := vs)) (trace h @ [Rd LSR a])"
  have "putc_wait ?h1 = Starved (Hw ((pending ?h1)(LSR := []))
             (trace ?h1 @ map (Rd LSR) (pending ?h1 LSR)))"
    using Cons.prems Cons.hyps(2) [symmetric] by (intro Cons.hyps(1)) simp_all
  then show ?case
    using Cons.prems Cons.hyps(2) [symmetric]
    by (subst putc_wait.simps) (simp add: uart_read_reg_def tx_idle_iff)
qed

lemma getc_wait_ready:
  "pending h LSR = vs @ v # rest \<Longrightarrow> \<forall>x\<in>set vs. \<not> bit x 0 \<Longrightarrow> bit v 0 \<Longrightarrow>
   getc_wait h =
     Done (Hw ((pending h)(LSR := rest)) (trace h @ map (Rd LSR) vs @ [Rd LSR v]))"
proof (induction vs arbitrary: h)
  case Nil
  then show ?case
    by (subst getc_wait.simps) (simp add: uart_read_reg_def rx_ready_iff)
next
  case (Cons a vs)
  show ?case
    using Cons.prems
    by (subst getc_wait.simps) (simp add: uart_read_reg_def rx_ready_iff Cons.IH fun_eq_iff)
qed

lemma getc_wait_never:
  "\<forall>x\<in>set (pending h LSR). \<not> bit x 0 \<Longrightarrow>
   getc_wait h =
     Starved (Hw ((pending h)(LSR := [])) (trace h @ map (Rd LSR) (pending h LSR)))"
proof (induction "pending h LSR" arbitrary: h)
  case Nil
  then show ?case
    by (subst getc_wait.simps) (simp add: uart_read_reg_def fun_upd_idem)
next
  case (Cons a vs)
  let ?h1 = "Hw ((pending h)(LSR := vs)) (trace h @ [Rd LSR a])"
  have "getc_wait ?h1 = Starved (Hw ((pending ?h1)(LSR := []))
             (trace ?h1 @ map (Rd LSR) (pending ?h1 LSR)))"
    using Cons.prems Cons.hyps(2) [symmetric] by (intro Cons.hyps(1)) simp_all
  then show ?case
    using Cons.prems Cons.hyps(2) [symmetric]
    by (subst getc_wait.simps) (simp add: uart_read_reg_def rx_ready_iff)
qed

section \<open>Initialization: the access sequence\<close>

text \<open>
  Claim C1. Whatever value \<open>v1\<close> the read of Line Control returns and whatever value
  \<open>v2\<close> the read of Interrupt Enable returns, \<^verbatim>\<open>uart_init\<close> returns having appended
  to the trace exactly eight accesses, in this order: write Interrupt Enable 0x00; read
  Line Control; write Line Control \<open>v1 OR 0x80\<close>; write Divisor Latch Low 0x03; write
  Divisor Latch High 0x00; write Line Control 0x03; read Interrupt Enable; write Interrupt
  Enable \<open>v2 OR 0x01\<close>. The last value written has bit 0 set and agrees with \<open>v2\<close> on
  every other bit.
\<close>

theorem init_sequence:
  "pending h LCR = v1 # r1 \<Longrightarrow> pending h IER = v2 # r2 \<Longrightarrow>
   uart_init h =
     Done (Hw ((pending h)(LCR := r1, IER := r2))
             (trace h @
               [Wr IER 0x00, Rd LCR v1, Wr LCR (v1 OR 0x80), Wr DLL 0x03, Wr DLM 0x00,
                Wr LCR 0x03, Rd IER v2, Wr IER (v2 OR 0x01)]))
   \<and> bit (v2 OR 0x01) 0
   \<and> (\<forall>n. 0 < n \<longrightarrow> bit (v2 OR 0x01) n = bit v2 n)"
  by (auto simp add: uart_init_def uart_read_reg_def uart_write_reg_def Let_def
        bit_or_iff bit_1_iff)

theorem init_sequence_witness:
  "uart_init (Hw ((\<lambda>r. [])(LCR := [0x1B], IER := [0x0E])) []) =
     Done (Hw ((\<lambda>r. [])(LCR := [], IER := []))
        [Wr IER 0x00, Rd LCR 0x1B, Wr LCR 0x9B, Wr DLL 0x03, Wr DLM 0x00,
         Wr LCR 0x03, Rd IER 0x0E, Wr IER 0x0F])"
  using init_sequence [of "Hw ((\<lambda>r. [])(LCR := [0x1B], IER := [0x0E])) []"
      "0x1B" "[]" "0x0E" "[]"]
  by (simp add: fun_eq_iff)

section \<open>Byte transfer: polling before the data register\<close>

text \<open>
  Claim C4. If the status script of the device is \<open>vs @ v # rest\<close>, where no value of
  \<open>vs\<close> has bit 5 set and \<open>v\<close> has, then \<^verbatim>\<open>uart_putc b\<close> returns, and the accesses it
  made are the Line Status reads that returned \<open>vs\<close>, the read that returned \<open>v\<close>, and
  right after it one write of \<open>b\<close> to the data register: no write before the first
  ready status, exactly one write in the call. If no value of the status script has bit 5
  set, the call is still waiting at the end of the script and has made Line Status reads
  only.
\<close>

theorem putc_waits_then_writes_once:
  "(pending h LSR = vs @ v # rest \<and> (\<forall>x\<in>set vs. \<not> bit x 5) \<and> bit v 5 \<longrightarrow>
      uart_putc b h =
        Done (Hw ((pending h)(LSR := rest))
                (trace h @ map (Rd LSR) vs @ [Rd LSR v, Wr THR b])))
   \<and> ((\<forall>x\<in>set (pending h LSR). \<not> bit x 5) \<longrightarrow>
      uart_putc b h =
        Starved (Hw ((pending h)(LSR := [])) (trace h @ map (Rd LSR) (pending h LSR))))"
  by (simp add: uart_putc_def putc_wait_ready putc_wait_never uart_write_reg_def)

theorem putc_waits_then_writes_once_witness:
  "uart_putc 0x41 (Hw ((\<lambda>r. [])(LSR := [0x00, 0x01, 0x20, 0x60])) []) =
     Done (Hw ((\<lambda>r. [])(LSR := [0x60]))
        [Rd LSR 0x00, Rd LSR 0x01, Rd LSR 0x20, Wr THR 0x41])
   \<and> uart_putc 0x41 (Hw ((\<lambda>r. [])(LSR := [0x00, 0x01])) []) =
     Starved (Hw ((\<lambda>r. [])(LSR := [])) [Rd LSR 0x00, Rd LSR 0x01])"
  using putc_waits_then_writes_once [of "Hw ((\<lambda>r. [])(LSR := [0x00, 0x01, 0x20, 0x60])) []"
      "[0x00, 0x01]" "0x20" "[0x60]" "0x41"]
    putc_waits_then_writes_once [of "Hw ((\<lambda>r. [])(LSR := [0x00, 0x01])) []"
      "[]" 0 "[]" "0x41"]
  by (simp add: fun_eq_iff)

text \<open>
  Claim C5. If the status script is \<open>vs @ v # rest\<close>, where no value of \<open>vs\<close> has bit 0
  set and \<open>v\<close> has, and the data register will return \<open>d\<close>, then \<^verbatim>\<open>uart_getc\<close>
  returns \<open>d\<close>, and the accesses it made are the Line Status reads that returned \<open>vs\<close>
  and \<open>v\<close> followed by one read of the data register. If no value of the status script
  has bit 0 set, the call is still waiting at the end of the script and has made Line
  Status reads only.
\<close>

theorem getc_waits_then_reads_once:
  "(pending h LSR = vs @ v # rest \<and> (\<forall>x\<in>set vs. \<not> bit x 0) \<and> bit v 0 \<and>
    pending h RHR = d # ds \<longrightarrow>
      uart_getc h =
        Done (d, Hw ((pending h)(LSR := rest, RHR := ds))
                (trace h @ map (Rd LSR) vs @ [Rd LSR v, Rd RHR d])))
   \<and> ((\<forall>x\<in>set (pending h LSR). \<not> bit x 0) \<longrightarrow>
      uart_getc h =
        Starved (Hw ((pending h)(LSR := [])) (trace h @ map (Rd LSR) (pending h LSR))))"
  by (simp add: uart_getc_def getc_wait_ready getc_wait_never uart_read_reg_def)

theorem getc_waits_then_reads_once_witness:
  "uart_getc (Hw ((\<lambda>r. [])(LSR := [0x60, 0x20, 0x61, 0x60], RHR := [0x48, 0x69])) []) =
     Done (0x48, Hw ((\<lambda>r. [])(LSR := [0x60], RHR := [0x69]))
        [Rd LSR 0x60, Rd LSR 0x20, Rd LSR 0x61, Rd RHR 0x48])
   \<and> uart_getc (Hw ((\<lambda>r. [])(LSR := [0x60, 0x20], RHR := [0x48, 0x69])) []) =
     Starved (Hw ((\<lambda>r. [])(LSR := [], RHR := [0x48, 0x69])) [Rd LSR 0x60, Rd LSR 0x20])"
  using getc_waits_then_reads_once
      [of "Hw ((\<lambda>r. [])(LSR := [0x60, 0x20, 0x61, 0x60], RHR := [0x48, 0x69])) []"
        "[0x60, 0x20]" "0x61" "[0x60]" "0x48" "[0x69]"]
    getc_waits_then_reads_once
      [of "Hw ((\<lambda>r. [])(LSR := [0x60, 0x20], RHR := [0x48, 0x69])) []" "[]" 0 "[]" 0 "[]"]
  by (simp add: fun_eq_iff)

section \<open>String output\<close>

lemma puts_takeWhile:
  "0 \<in> set s \<Longrightarrow> uart_puts s h = putc_each (takeWhile (\<lambda>c. c \<noteq> 0) s) h"
proof (induction s arbitrary: h)
  case Nil
  then show ?case by simp
next
  case (Cons c s)
  show ?case
  proof (cases "c = 0")
    case True
    then show ?thesis by simp
  next
    case False
    with Cons.prems have "0 \<in> set s" by simp
    with False Cons.IH show ?thesis
      by (cases "uart_putc c h") simp_all
  qed
qed

text \<open>
  Claim C7. For every character array \<open>s\<close> that holds a null byte, \<^verbatim>\<open>uart_puts s\<close> has
  the outcome, machine and access trace included, of \<^verbatim>\<open>uart_putc\<close> called in turn on
  the characters of \<open>s\<close> before its first null byte. On the array of \<^verbatim>\<open>"AB"\<close> it is
  \<^verbatim>\<open>uart_putc('A')\<close> followed by \<^verbatim>\<open>uart_putc('B')\<close>.
\<close>

theorem puts_is_putc_each:
  "(0 \<in> set s \<longrightarrow> uart_puts s h = putc_each (takeWhile (\<lambda>c. c \<noteq> 0) s) h)
   \<and> uart_puts [0x41, 0x42, 0x00] h = andthen (uart_putc 0x41 h) (uart_putc 0x42)"
proof -
  have "andthen x (uart_puts [0x00]) = x" for x
    by (cases x) simp_all
  then have "uart_puts [0x41, 0x42, 0x00] h = andthen (uart_putc 0x41 h) (uart_putc 0x42)"
    by (cases "uart_putc 0x41 h") simp_all
  then show ?thesis
    by (simp add: puts_takeWhile)
qed

theorem puts_is_putc_each_witness:
  "uart_puts [0x48, 0x69, 0x00, 0x21] (Hw ((\<lambda>r. [])(LSR := [0x20, 0x00, 0x60, 0x20])) []) =
     Done (Hw ((\<lambda>r. [])(LSR := [0x20]))
       [Rd LSR 0x20, Wr THR 0x48, Rd LSR 0x00, Rd LSR 0x60, Wr THR 0x69])"
proof -
  let ?h = "Hw ((\<lambda>r. [])(LSR := [0x20, 0x00, 0x60, 0x20])) []"
  have "uart_puts [0x48, 0x69, 0x00, 0x21] ?h =
      putc_each (takeWhile (\<lambda>c. c \<noteq> 0) [0x48, 0x69, 0x00, 0x21]) ?h"
    by (rule puts_is_putc_each [THEN conjunct1, THEN mp]) simp
  also have "\<dots> = Done (Hw ((\<lambda>r. [])(LSR := [0x20]))
       [Rd LSR 0x20, Wr THR 0x48, Rd LSR 0x00, Rd LSR 0x60, Wr THR 0x69])"
    by (simp add: uart_putc_def putc_wait.simps uart_read_reg_def uart_write_reg_def
          LSR_TX_IDLE_def fun_eq_iff)
  finally show ?thesis .
qed


section \<open>Traces and the byte operations\<close>

lemma reads_of_append [simp]: "reads_of r (a @ b) = reads_of r a @ reads_of r b"
  by (induction r a rule: reads_of.induct) simp_all

lemma writes_to_append [simp]: "writes_to r (a @ b) = writes_to r a @ writes_to r b"
  by (induction r a rule: writes_to.induct) simp_all

lemma reads_of_map_Rd [simp]: "reads_of r (map (Rd q) vs) = (if q = r then vs else [])"
  by (induction vs) auto

lemma writes_to_map_Rd [simp]: "writes_to r (map (Rd q) vs) = []"
  by (induction vs) simp_all

lemma unpolled_append [simp]: "unpolled (a @ b) = unpolled a @ unpolled b"
  by (simp add: unpolled_def)

lemma unpolled_polls [simp]: "unpolled (map (Rd LSR) vs) = []"
  by (induction vs) (simp_all add: unpolled_def)

lemma unpolled_Cons [simp]:
  "unpolled (a # tr) = (if is_poll a then unpolled tr else a # unpolled tr)"
  by (simp add: unpolled_def)

lemma unpolled_Nil [simp]: "unpolled [] = []"
  by (simp add: unpolled_def)

lemma reads_of_unpolled: "r \<noteq> LSR \<Longrightarrow> reads_of r (unpolled tr) = reads_of r tr"
  by (induction r tr rule: reads_of.induct) auto

lemma writes_to_unpolled: "writes_to r (unpolled tr) = writes_to r tr"
  by (induction r tr rule: writes_to.induct) auto

lemma run_refl [simp]: "run h [] h"
  by (simp add: run_def)

lemma run_trans: "run h e1 h1 \<Longrightarrow> run h1 e2 h2 \<Longrightarrow> run h (e1 @ e2) h2"
  by (simp add: run_def)

lemma run_pending: "run h ev h' \<Longrightarrow> r \<noteq> LSR \<Longrightarrow> pending h r = reads_of r (unpolled ev) @ pending h' r"
  by (simp add: run_def reads_of_unpolled)

text \<open>
  What a call of a byte operation that has ended leaves: a returned call has made its one
  data-register access after its polls; a call still waiting has used up the status
  script.
\<close>

lemma first_ready:
  obtains (ready) vs v rest where "xs = vs @ v # rest" "\<forall>x\<in>set vs. \<not> P x" "P v"
  | (never) "\<forall>x\<in>set xs. \<not> P x"
  using split_list_first_prop [of xs P] by blast

lemma uart_putc_Done:
  assumes "uart_putc c h = Done h'"
  shows "\<exists>ev. run h ev h' \<and> unpolled ev = [Wr THR c]"
proof (cases "pending h LSR" "\<lambda>v::u8. bit v 5" rule: first_ready)
  case (ready vs v rest)
  with assms have "h' = Hw ((pending h)(LSR := rest)) (trace h @ map (Rd LSR) vs @ [Rd LSR v, Wr THR c])"
    by (simp add: uart_putc_def putc_wait_ready uart_write_reg_def)
  with ready(1) have "run h (map (Rd LSR) vs @ [Rd LSR v, Wr THR c]) h'"
    by (simp add: run_def)
  moreover have "unpolled (map (Rd LSR) vs @ [Rd LSR v, Wr THR c]) = [Wr THR c]"
    by simp
  ultimately show ?thesis
    by blast
next
  case never
  with assms show ?thesis
    by (simp add: uart_putc_def putc_wait_never)
qed

lemma uart_putc_Starved:
  assumes "uart_putc c h = Starved x"
  shows "pending x LSR = []"
proof (cases "pending h LSR" "\<lambda>v::u8. bit v 5" rule: first_ready)
  case (ready vs v rest)
  with assms show ?thesis
    by (simp add: uart_putc_def putc_wait_ready)
next
  case never
  with assms show ?thesis
    by (auto simp add: uart_putc_def putc_wait_never)
qed

lemma uart_putc_not_Overrun: "uart_putc c h \<noteq> Overrun x"
proof (cases "pending h LSR" "\<lambda>v::u8. bit v 5" rule: first_ready)
  case (ready vs v rest)
  then show ?thesis
    by (simp add: uart_putc_def putc_wait_ready)
next
  case never
  then show ?thesis
    by (simp add: uart_putc_def putc_wait_never)
qed

lemma uart_getc_Done:
  assumes "uart_getc h = Done (c, h')"
  shows "\<exists>ev. run h ev h' \<and> unpolled ev = [Rd RHR c]"
proof (cases "pending h LSR" "\<lambda>v::u8. bit v 0" rule: first_ready)
  case (ready vs v rest)
  with assms obtain ds where ds: "pending h RHR = c # ds"
    and h': "h' = Hw ((pending h)(LSR := rest, RHR := ds)) (trace h @ map (Rd LSR) vs @ [Rd LSR v, Rd RHR c])"
    by (auto simp add: uart_getc_def getc_wait_ready uart_read_reg_def split: list.splits)
  with ready(1) have "run h (map (Rd LSR) vs @ [Rd LSR v, Rd RHR c]) h'"
    by (simp add: run_def)
  moreover have "unpolled (map (Rd LSR) vs @ [Rd LSR v, Rd RHR c]) = [Rd RHR c]"
    by simp
  ultimately show ?thesis
    by blast
next
  case never
  with assms show ?thesis
    by (simp add: uart_getc_def getc_wait_never)
qed

lemma uart_getc_Starved:
  assumes "uart_getc h = Starved x"
  shows "pending x LSR = [] \<or> pending h RHR = []"
proof (cases "pending h LSR" "\<lambda>v::u8. bit v 0" rule: first_ready)
  case (ready vs v rest)
  with assms show ?thesis
    by (simp add: uart_getc_def getc_wait_ready uart_read_reg_def split: list.splits)
next
  case never
  with assms show ?thesis
    by (auto simp add: uart_getc_def getc_wait_never)
qed

lemma uart_getc_not_Overrun: "uart_getc h \<noteq> Overrun x"
proof (cases "pending h LSR" "\<lambda>v::u8. bit v 0" rule: first_ready)
  case (ready vs v rest)
  then show ?thesis
    by (simp add: uart_getc_def getc_wait_ready uart_read_reg_def split: list.splits)
next
  case never
  then show ?thesis
    by (simp add: uart_getc_def getc_wait_never)
qed

lemma putc_each_Done:
  "putc_each cs h = Done h' \<Longrightarrow> \<exists>ev. run h ev h' \<and> unpolled ev = map (Wr THR) cs"
proof (induction cs arbitrary: h)
  case Nil
  then show ?case by (auto intro: exI [of _ "[]"])
next
  case (Cons c cs)
  from Cons.prems obtain h1 where c: "uart_putc c h = Done h1" and r: "putc_each cs h1 = Done h'"
    by (cases "uart_putc c h") simp_all
  from uart_putc_Done [OF c] obtain e1 where e1: "run h e1 h1" "unpolled e1 = [Wr THR c]"
    by blast
  from Cons.IH [OF r] obtain e2 where e2: "run h1 e2 h'" "unpolled e2 = map (Wr THR) cs"
    by blast
  from e1 e2 show ?case
    by (intro exI [of _ "e1 @ e2"]) (simp add: run_trans)
qed

lemma putc_each_Starved:
  "putc_each cs h = Starved x \<Longrightarrow> pending x LSR = []"
proof (induction cs arbitrary: h)
  case Nil
  then show ?case by simp
next
  case (Cons c cs)
  then show ?case
    by (cases "uart_putc c h") (auto dest: uart_putc_Starved)
qed

lemma putc_each_not_Overrun: "putc_each cs h \<noteq> Overrun x"
proof (induction cs arbitrary: h)
  case Nil
  then show ?case by simp
next
  case (Cons c cs)
  then show ?case
    by (cases "uart_putc c h") (auto simp: uart_putc_not_Overrun)
qed

lemma erase_echo: "uart_puts [0x08, 0x20, 0x08, 0x00] h = putc_each [0x08, 0x20, 0x08] h"
  by (subst puts_takeWhile) simp_all

section \<open>One turn of the loop\<close>

lemma putc_cases:
  obtains (returned) h' ev where "uart_putc c h = Done h'" "run h ev h'" "unpolled ev = [Wr THR c]"
  | (waiting) x where "uart_putc c h = Starved x" "pending x LSR = []"
  using uart_putc_Done [of c h] uart_putc_Starved [of c h] uart_putc_not_Overrun [of c h]
  by (cases "uart_putc c h") blast+

lemma putc_each_cases:
  obtains (returned) h' ev where "putc_each cs h = Done h'" "run h ev h'"
      "unpolled ev = map (Wr THR) cs"
  | (waiting) x where "putc_each cs h = Starved x" "pending x LSR = []"
  using putc_each_Done [of cs h] putc_each_Starved [of cs h] putc_each_not_Overrun [of cs h]
  by (cases "putc_each cs h") blast+

lemma getc_cases:
  assumes "pending h RHR = c # cs"
  obtains (returned) h' ev where "uart_getc h = Done (c, h')" "run h ev h'"
      "unpolled ev = [Rd RHR c]" "pending h' RHR = cs"
  | (waiting) x where "uart_getc h = Starved x" "pending x LSR = []"
proof (cases "uart_getc h")
  case (Done p)
  obtain ch h' where p: "p = (ch, h')"
    by (cases p)
  from uart_getc_Done [of h ch h'] Done p obtain ev
    where ev: "run h ev h'" "unpolled ev = [Rd RHR ch]"
    by blast
  from run_pending [OF ev(1), of RHR] ev(2) assms have "ch = c" "pending h' RHR = cs"
    by simp_all
  with Done p ev show ?thesis
    by (intro returned [of h' ev]) simp_all
next
  case (Starved x)
  with uart_getc_Starved [of h x] assms show ?thesis
    by (intro waiting [of x]) simp_all
next
  case (Overrun x)
  with uart_getc_not_Overrun [of h x] show ?thesis
    by simp
qed

lemma run_keeps_input:
  "run h ev h' \<Longrightarrow> reads_of RHR (unpolled ev) = [] \<Longrightarrow> pending h' RHR = pending h RHR"
  using run_pending [of h ev h' RHR] by simp

lemma gets_body_cases:
  assumes "pending h RHR = c # cs"
  obtains (returned) h' ev where "run h ev h'" "pending h' RHR = cs"
      "unpolled ev = fst (turn s t mem c h')"
      "gets_body s (t, mem, h) = Done (snd (turn s t mem c h'))"
  | (waiting) x where "gets_body s (t, mem, h) = Starved x" "pending x LSR = []"
  using assms
proof (cases rule: getc_cases)
  case (waiting x)
  then show ?thesis
    by (intro that(2) [of x]) (simp_all add: gets_body_def)
next
  case g: (returned h1 e1)
  show ?thesis
  proof (cases "c = 0x0D")
    case True
    show ?thesis
    proof (cases rule: putc_cases [where c = "0x0D" and h = h1])
      case (waiting x)
      with g True show ?thesis
        by (intro that(2) [of x]) (simp_all add: gets_body_def)
    next
      case p1: (returned h2 e2)
      show ?thesis
      proof (cases rule: putc_cases [where c = "0x0A" and h = h2])
        case (waiting x)
        with g p1 True show ?thesis
          by (intro that(2) [of x]) (simp_all add: gets_body_def)
      next
        case p2: (returned h3 e3)
        have "run h (e1 @ e2 @ e3) h3"
          using g(2) p1(2) p2(2) by (blast intro: run_trans)
        moreover have "pending h3 RHR = cs"
          using run_keeps_input [OF p1(2)] run_keeps_input [OF p2(2)] g(4) p1(3) p2(3)
          by simp
        ultimately show ?thesis
          using g p1 p2 True
          by (intro that(1) [where h' = h3 and ev = "e1 @ e2 @ e3"]) (simp_all add: gets_body_def turn_def)
      qed
    qed
  next
    case cr: False
    show ?thesis
    proof (cases "c = 0x08 \<or> c = 0x7F")
      case erase: True
      show ?thesis
      proof (cases "t > s")
        case False
        with g cr erase show ?thesis
          by (intro that(1) [where h' = h1 and ev = e1]) (auto simp add: gets_body_def turn_def)
      next
        case True
        show ?thesis
        proof (cases rule: putc_each_cases [where cs = "[0x08, 0x20, 0x08]" and h = h1])
          case (waiting x)
          with g cr erase True show ?thesis
            by (intro that(2) [of x]) (auto simp add: gets_body_def erase_echo simp del: uart_puts.simps putc_each.simps)
        next
          case p: (returned h2 e2)
          have "run h (e1 @ e2) h2"
            using g(2) p(2) by (blast intro: run_trans)
          moreover have "pending h2 RHR = cs"
            using run_keeps_input [OF p(2)] g(4) p(3) by simp
          ultimately show ?thesis
            using g p cr erase True
            by (intro that(1) [where h' = h2 and ev = "e1 @ e2"]) (auto simp add: gets_body_def turn_def erase_echo simp del: uart_puts.simps putc_each.simps)
        qed
      qed
    next
      case ordinary: False
      show ?thesis
      proof (cases rule: putc_cases [where c = c and h = h1])
        case (waiting x)
        with g cr ordinary show ?thesis
          by (intro that(2) [of x]) (simp_all add: gets_body_def)
      next
        case p: (returned h2 e2)
        have "run h (e1 @ e2) h2"
          using g(2) p(2) by (blast intro: run_trans)
        moreover have "pending h2 RHR = cs"
          using run_keeps_input [OF p(2)] g(4) p(3) by simp
        ultimately show ?thesis
          using g p cr ordinary
          by (intro that(1) [where h' = h2 and ev = "e1 @ e2"]) (simp_all add: gets_body_def turn_def)
      qed
    qed
  qed
qed

lemma gets_body_turn:
  assumes "pending h RHR = c # cs"
  shows "(\<exists>x. gets_body s (t, mem, h) = Starved x \<and> pending x LSR = []) \<or>
     (\<exists>h' ev. gets_body s (t, mem, h) = Done (snd (turn s t mem c h')) \<and>
        trace h' = trace h @ ev \<and> unpolled ev = fst (turn s t mem c h') \<and>
        pending h' RHR = cs)"
  using assms
proof (cases rule: gets_body_cases [where s = s and t = t and mem = mem])
  case (waiting x)
  then show ?thesis by blast
next
  case (returned h' ev)
  then have "trace h' = trace h @ ev"
    by (simp add: run_def)
  with returned show ?thesis by blast
qed

lemma andthen_eq_Done: "andthen x k = Done r \<longleftrightarrow> (\<exists>a. x = Done a \<and> k a = Done r)"
  by (cases x) simp_all

lemma gets_body_Continue:
  assumes "gets_body s (t, m, h) = Done (Continue (t', m', h'))"
  shows "\<exists>ch h1. uart_getc h = Done (ch, h1) \<and> ch \<noteq> 0x0D \<and>
     (if ch = 0x08 \<or> ch = 0x7F then m' = m \<and> t' = (if t > s then t - 1 else t)
      else m' = m(t := ch) \<and> t' = t + 1)"
proof -
  from assms obtain ch h1 where g: "uart_getc h = Done (ch, h1)"
    by (auto simp add: gets_body_def andthen_eq_Done)
  with assms show ?thesis
    by (auto simp add: gets_body_def andthen_eq_Done simp del: uart_puts.simps
          split: if_splits)
qed

lemma gets_body_Break:
  assumes "gets_body s (t, m, h) = Done (Break (t', m', h'))"
  shows "(\<exists>h1. uart_getc h = Done (0x0D, h1)) \<and> t' = t \<and> m' = m(t := 0x00)"
  using assms
  by (auto simp add: gets_body_def andthen_eq_Done simp del: uart_puts.simps
        split: if_splits)

section \<open>The loop on a line of input\<close>

lemma length_stored [simp]: "length (stored mem s n) = n"
  by (simp add: stored_def)

lemma stored_0 [simp]: "stored mem s 0 = []"
  by (simp add: stored_def)

lemma stored_Nil_iff [simp]: "(stored mem s n = []) = (n = 0)"
  by (simp add: stored_def)

lemma stored_Suc: "stored mem s (Suc n) = stored mem s n @ [mem (s + int n)]"
  by (simp add: stored_def)

lemma stored_upd_above: "s + int n \<le> a \<Longrightarrow> stored (mem(a := c)) s n = stored mem s n"
  by (simp add: stored_def)

lemma stored_push: "stored (mem(s + int n := c)) s (Suc n) = stored mem s n @ [c]"
  by (simp add: stored_Suc stored_upd_above)

lemma stored_butlast: "butlast (stored mem s n) = stored mem s (n - 1)"
  by (cases n) (simp_all add: stored_Suc)

lemma gets_loop_Break:
  "gets_body s st = Done (Break st') \<Longrightarrow> gets_loop s st = Done st'"
  by (subst gets_loop.simps) simp

lemma gets_loop_Continue:
  "gets_body s st = Done (Continue st') \<Longrightarrow> gets_loop s st = gets_loop s st'"
  by (subst gets_loop.simps) simp

lemma gets_loop_Starved:
  "gets_body s st = Starved x \<Longrightarrow> gets_loop s st = Starved x"
  by (subst gets_loop.simps) simp

lemma line_result_step:
  assumes r: "run h ek hk"
    and u: "unpolled ek @ edit_io (stored memk s nk) cs = edit_io (stored mem s n) (c # cs)"
    and l: "edit_line (stored memk s nk) cs = edit_line (stored mem s n) (c # cs)"
    and below: "\<forall>a. a < s \<longrightarrow> memk a = mem a"
    and ih: "line_result s nk memk hk cs rest out"
  shows "line_result s n mem h (c # cs) rest out"
proof -
  from ih consider
    (waiting) x where "out = Starved x" "pending x LSR = []"
  | (returned) mem' h' ev where
      "out = Done (s + int (length (edit_line (stored memk s nk) cs)), mem', h')"
      "run hk ev h'" "pending h' RHR = rest"
      "unpolled ev = edit_io (stored memk s nk) cs @ [Rd RHR 0x0D, Wr THR 0x0D, Wr THR 0x0A]"
      "stored mem' s (length (edit_line (stored memk s nk) cs)) = edit_line (stored memk s nk) cs"
      "mem' (s + int (length (edit_line (stored memk s nk) cs))) = 0x00"
      "\<forall>a. a < s \<longrightarrow> mem' a = memk a"
    unfolding line_result_def by blast
  then show ?thesis
  proof cases
    case waiting
    then show ?thesis
      by (simp add: line_result_def)
  next
    case returned
    have "run h (ek @ ev) h'"
      using r returned(2) by (rule run_trans)
    moreover have "unpolled (ek @ ev) =
        edit_io (stored mem s n) (c # cs) @ [Rd RHR 0x0D, Wr THR 0x0D, Wr THR 0x0A]"
      using u returned(4) by (simp del: edit_io.simps flip: append_assoc)
    moreover have "\<forall>a. a < s \<longrightarrow> mem' a = mem a"
      using returned(7) below by simp
    ultimately show ?thesis
      unfolding line_result_def
      using returned(1,3,5,6) unfolding l
      by (intro disjI2 exI [of _ mem'] exI [of _ h'] exI [of _ "ek @ ev"]) simp
  qed
qed

lemma gets_loop_line:
  "pending h RHR = body @ 0x0D # rest \<Longrightarrow> 0x0D \<notin> set body \<Longrightarrow>
   line_result s n mem h body rest (gets_loop s (s + int n, mem, h))"
proof (induction body arbitrary: n mem h)
  case Nil
  then have inp: "pending h RHR = 0x0D # rest"
    by simp
  from inp show ?case
  proof (cases rule: gets_body_cases [where s = s and t = "s + int n" and mem = mem])
    case (waiting x)
    then show ?thesis
      by (simp add: gets_loop_Starved line_result_def)
  next
    case (returned h' ev)
    then have "gets_loop s (s + int n, mem, h) = Done (s + int n, mem(s + int n := 0x00), h')"
      by (intro gets_loop_Break) (simp add: turn_def)
    with returned show ?thesis
      by (auto simp add: line_result_def turn_def stored_upd_above)
  qed
next
  case (Cons c cs)
  then have inp: "pending h RHR = c # (cs @ 0x0D # rest)" and c: "c \<noteq> 0x0D"
    and cs: "0x0D \<notin> set cs"
    by simp_all
  from inp show ?case
  proof (cases rule: gets_body_cases [where s = s and t = "s + int n" and mem = mem])
    case (waiting x)
    then show ?thesis
      by (simp add: gets_loop_Starved line_result_def)
  next
    case (returned h1 e1)
    show ?thesis
    proof (cases "c = 0x08 \<or> c = 0x7F")
      case ordinary: False
      with returned c
      have loop: "gets_loop s (s + int n, mem, h) =
          gets_loop s (s + int (Suc n), mem(s + int n := c), h1)"
        by (intro gets_loop_Continue) (simp add: turn_def add.assoc)
      have "line_result s (Suc n) (mem(s + int n := c)) h1 cs rest
          (gets_loop s (s + int (Suc n), mem(s + int n := c), h1))"
        using returned(2) cs by (intro Cons.IH) simp_all
      then show ?thesis
        unfolding loop using returned(1,3) c ordinary
        by (intro line_result_step [where ek = e1 and hk = h1 and nk = "Suc n"
              and memk = "mem(s + int n := c)"])
           (simp_all add: turn_def stored_push)
    next
      case erase: True
      show ?thesis
      proof (cases "n = 0")
        case True
        with returned c erase
        have loop: "gets_loop s (s + int n, mem, h) = gets_loop s (s + int n, mem, h1)"
          by (intro gets_loop_Continue) (auto simp add: turn_def)
        have "line_result s n mem h1 cs rest (gets_loop s (s + int n, mem, h1))"
          using returned(2) cs by (intro Cons.IH) simp_all
        then show ?thesis
          unfolding loop using returned(1,3) c erase True
          by (intro line_result_step [where ek = e1 and hk = h1 and nk = n and memk = mem])
             (auto simp add: turn_def)
      next
        case False
        then have n: "s + int n - 1 = s + int (n - 1)"
          by simp
        from False returned c erase
        have loop: "gets_loop s (s + int n, mem, h) = gets_loop s (s + int (n - 1), mem, h1)"
          by (intro gets_loop_Continue) (auto simp add: turn_def n)
        have "line_result s (n - 1) mem h1 cs rest (gets_loop s (s + int (n - 1), mem, h1))"
          using returned(2) cs by (intro Cons.IH) simp_all
        then show ?thesis
          unfolding loop using returned(1,3) c erase False
          by (intro line_result_step [where ek = e1 and hk = h1 and nk = "n - 1"
                and memk = mem])
             (auto simp add: turn_def stored_butlast)
      qed
    qed
  qed
qed

lemma putc_ready:
  "pending h LSR = v # vs \<Longrightarrow> bit v 5 \<Longrightarrow>
   uart_putc c h = Done (Hw ((pending h)(LSR := vs)) (trace h @ [Rd LSR v, Wr THR c]))"
  using putc_wait_ready [of h "[]" v vs] by (simp add: uart_putc_def uart_write_reg_def)

lemma getc_ready:
  "pending h LSR = v # vs \<Longrightarrow> bit v 0 \<Longrightarrow> pending h RHR = c # cs \<Longrightarrow>
   uart_getc h =
     Done (c, Hw ((pending h)(LSR := vs, RHR := cs)) (trace h @ [Rd LSR v, Rd RHR c]))"
  using getc_wait_ready [of h "[]" v vs] by (simp add: uart_getc_def uart_read_reg_def)

lemma four_or_more:
  "4 \<le> length xs \<Longrightarrow> \<exists>a b c d ys. xs = a # b # c # d # ys"
  by (auto simp add: Suc_le_length_iff eval_nat_numeral)

lemma three_or_more:
  "3 \<le> length xs \<Longrightarrow> \<exists>a b c ys. xs = a # b # c # ys"
  by (auto simp add: Suc_le_length_iff eval_nat_numeral)

lemma gets_loop_ready:
  "pending h RHR = body @ 0x0D # rest \<Longrightarrow> 0x0D \<notin> set body \<Longrightarrow>
   \<forall>v\<in>set (pending h LSR). bit v 0 \<and> bit v 5 \<Longrightarrow>
   4 * length body + 3 \<le> length (pending h LSR) \<Longrightarrow>
   \<exists>r. gets_loop s (t, mem, h) = Done r"
proof (induction body arbitrary: t mem h)
  case Nil
  from Nil.prems(4) obtain v1 v2 v3 vs where st: "pending h LSR = v1 # v2 # v3 # vs"
    using three_or_more [of "pending h LSR"] by auto
  with Nil.prems(3) have rdy: "bit v1 0" "bit v2 5" "bit v3 5"
    by simp_all
  from Nil.prems(1) have inp: "pending h RHR = 0x0D # rest"
    by simp
  have "\<exists>h'. gets_body s (t, mem, h) = Done (Break (t, mem(t := 0x00), h'))"
    by (simp add: gets_body_def getc_ready [OF st rdy(1) inp] putc_ready rdy)
  then show ?case
    by (auto dest: gets_loop_Break)
next
  case (Cons c cs)
  from Cons.prems(4) obtain v1 v2 v3 v4 vs where st: "pending h LSR = v1 # v2 # v3 # v4 # vs"
    using four_or_more [of "pending h LSR"] by auto
  with Cons.prems(3) have rdy: "bit v1 0" "bit v2 5" "bit v3 5" "bit v4 5"
    and rest_rdy: "\<forall>v\<in>set (v2 # v3 # v4 # vs). bit v 0 \<and> bit v 5"
    by simp_all
  from Cons.prems(4) st have len: "4 * length cs + 3 \<le> length vs"
    by simp
  from Cons.prems(1,2) have inp: "pending h RHR = c # (cs @ 0x0D # rest)" and c: "c \<noteq> 0x0D"
    and cs: "0x0D \<notin> set cs"
    by simp_all
  have "\<exists>t' mem' h'. gets_body s (t, mem, h) = Done (Continue (t', mem', h')) \<and>
      pending h' RHR = cs @ 0x0D # rest \<and> (\<exists>ws. pending h' LSR = ws @ vs \<and> set ws \<subseteq> {v2, v3, v4})"
  proof (cases "c = 0x08 \<or> c = 0x7F")
    case False
    with c show ?thesis
      by (simp add: gets_body_def getc_ready [OF st rdy(1) inp] putc_ready rdy)
  next
    case erase: True
    show ?thesis
    proof (cases "t > s")
      case True
      with c erase show ?thesis
        by (simp add: gets_body_def getc_ready [OF st rdy(1) inp] putc_ready rdy)
    next
      case False
      with c erase show ?thesis
        by (simp add: gets_body_def getc_ready [OF st rdy(1) inp])
    qed
  qed
  then obtain t' mem' h' ws where body: "gets_body s (t, mem, h) = Done (Continue (t', mem', h'))"
    and inp': "pending h' RHR = cs @ 0x0D # rest" and st': "pending h' LSR = ws @ vs"
    and ws: "set ws \<subseteq> {v2, v3, v4}"
    by blast
  from st' ws rest_rdy have "\<forall>v\<in>set (pending h' LSR). bit v 0 \<and> bit v 5"
    by auto
  moreover from st' len have "4 * length cs + 3 \<le> length (pending h' LSR)"
    by simp
  ultimately have "\<exists>r. gets_loop s (t', mem', h') = Done r"
    using inp' cs by (intro Cons.IH)
  with body show ?case
    by (simp add: gets_loop_Continue)
qed

text \<open>
  Claim C2. Let the bytes the data register will return be \<open>body @ 0x0D # rest\<close>, with
  no carriage return in \<open>body\<close>. Whatever the status script, \<^verbatim>\<open>uart_gets\<close> either
  returns or is still waiting for a status bit when the script ends. If it returns: it has
  consumed exactly \<open>body\<close> and the carriage return; its accesses other than status polls
  are, for each byte of \<open>body\<close>, the read of the byte followed by its echo, and then
  the read of the carriage return, the write of \<open>0x0D\<close> and the write of \<open>0x0A\<close>; the
  buffer holds the edited line \<open>edit_line [] body\<close> from the start, followed by a null
  byte at the cursor; the value returned is the length of that line. If every status value
  has bits 0 and 5 set and there are at least \<open>4 * length body + 3\<close> of them, the call
  returns. For the input \<open>H\<close>, \<open>i\<close>, carriage return, the witness below gives the
  buffer \<open>Hi\<close> and a null byte, the value 2, and the echo \<open>H i \r \n\<close>.
\<close>

theorem gets_reads_a_line:
  assumes "pending h RHR = body @ 0x0D # rest" and "0x0D \<notin> set body"
  shows "(case uart_gets s mem h of
            Done (n, mem', h') \<Rightarrow>
              n = of_nat (length (edit_line [] body)) \<and>
              stored mem' s (length (edit_line [] body)) = edit_line [] body \<and>
              mem' (s + int (length (edit_line [] body))) = 0x00 \<and>
              pending h' RHR = rest \<and>
              (\<exists>ev. trace h' = trace h @ ev \<and>
                 unpolled ev = edit_io [] body @ [Rd RHR 0x0D, Wr THR 0x0D, Wr THR 0x0A])
          | Starved x \<Rightarrow> pending x LSR = []
          | Overrun x \<Rightarrow> False)
         \<and> ((\<forall>v\<in>set (pending h LSR). bit v 0 \<and> bit v 5) \<and>
              4 * length body + 3 \<le> length (pending h LSR) \<longrightarrow>
              (\<exists>r. uart_gets s mem h = Done r))"
proof (intro conjI impI)
  from gets_loop_line [OF assms, of s 0 mem]
  show "case uart_gets s mem h of
            Done (n, mem', h') \<Rightarrow>
              n = of_nat (length (edit_line [] body)) \<and>
              stored mem' s (length (edit_line [] body)) = edit_line [] body \<and>
              mem' (s + int (length (edit_line [] body))) = 0x00 \<and>
              pending h' RHR = rest \<and>
              (\<exists>ev. trace h' = trace h @ ev \<and>
                 unpolled ev = edit_io [] body @ [Rd RHR 0x0D, Wr THR 0x0D, Wr THR 0x0A])
          | Starved x \<Rightarrow> pending x LSR = []
          | Overrun x \<Rightarrow> False"
    by (auto simp add: line_result_def uart_gets_def run_def)
next
  assume "(\<forall>v\<in>set (pending h LSR). bit v 0 \<and> bit v 5) \<and>
      4 * length body + 3 \<le> length (pending h LSR)"
  with gets_loop_ready [OF assms, of s s mem] show "\<exists>r. uart_gets s mem h = Done r"
    by (auto simp add: uart_gets_def)
qed

theorem gets_reads_a_line_witness:
  "\<exists>mem' h'.
     uart_gets 0x1000 (\<lambda>a. 0xFF)
       (Hw ((\<lambda>r. [])(LSR := replicate 11 0x61, RHR := [0x48, 0x69, 0x0D])) []) =
       Done (2, mem', h') \<and>
     stored mem' 0x1000 2 = [0x48, 0x69] \<and> mem' 0x1002 = 0x00 \<and>
     writes_to THR (trace h') = [0x48, 0x69, 0x0D, 0x0A]"
proof -
  let ?h = "Hw ((\<lambda>r. [])(LSR := replicate 11 0x61, RHR := [0x48, 0x69, 0x0D])) []"
  let ?mem = "\<lambda>a::int. 0xFF :: u8"
  have inp: "pending ?h RHR = [0x48, 0x69] @ 0x0D # []" and body: "0x0D \<notin> set [0x48, 0x69 :: u8]"
    by simp_all
  note line = gets_reads_a_line [OF inp body, of "0x1000" ?mem]
  from line obtain r where r: "uart_gets 0x1000 ?mem ?h = Done r"
    by auto
  obtain n mem' h' where "r = (n, mem', h')"
    by (cases r)
  with r line have res: "n = 2 \<and> stored mem' 0x1000 (Suc (Suc 0)) = [0x48, 0x69] \<and>
      mem' 0x1002 = 0x00"
    and ev: "unpolled (trace h') =
      [Rd RHR 0x48, Wr THR 0x48, Rd RHR 0x69, Wr THR 0x69, Rd RHR 0x0D, Wr THR 0x0D, Wr THR 0x0A]"
    by auto
  from ev have "writes_to THR (trace h') = [0x48, 0x69, 0x0D, 0x0A]"
    using writes_to_unpolled [of THR "trace h'"] by simp
  with res r \<open>r = (n, mem', h')\<close> show ?thesis
    unfolding numeral_2_eq_2 [symmetric] by blast
qed


section \<open>Evaluation on concrete scripts\<close>

lemmas run_simps = uart_gets_def gets_loop.simps gets_body_def uart_getc_def uart_putc_def
  getc_wait.simps putc_wait.simps uart_read_reg_def uart_write_reg_def
  LSR_TX_IDLE_def LSR_RX_READY_def


section \<open>The divisor latch stays closed\<close>

lemma transfer_onlyI:
  "trace x = trace h @ ev \<Longrightarrow> list_all transfer_access ev \<Longrightarrow> transfer_only h x"
  by (simp add: transfer_only_def)

lemma transfer_onlyE:
  assumes "transfer_only h x"
  obtains ev where "trace x = trace h @ ev" "list_all transfer_access ev"
proof
  from assms show "trace x = trace h @ drop (length (trace h)) (trace x)"
    unfolding transfer_only_def by (metis append_take_drop_id)
  from assms show "list_all transfer_access (drop (length (trace h)) (trace x))"
    by (simp add: transfer_only_def)
qed

lemma transfer_only_refl [simp]: "transfer_only h h"
  by (simp add: transfer_only_def)

lemma transfer_only_trans:
  "transfer_only h x \<Longrightarrow> transfer_only x y \<Longrightarrow> transfer_only h y"
proof -
  assume "transfer_only h x" and "transfer_only x y"
  then obtain e1 e2 where "trace x = trace h @ e1" "list_all transfer_access e1"
    "trace y = trace x @ e2" "list_all transfer_access e2"
    by (elim transfer_onlyE)
  then show ?thesis
    by (intro transfer_onlyI [where ev = "e1 @ e2"]) simp_all
qed

lemma transfer_andthen:
  assumes "transfer_only h (machine f x)"
    and "\<And>a. x = Done a \<Longrightarrow> transfer_only (f a) (machine g (k a))"
  shows "transfer_only h (machine g (andthen x k))"
  using assms by (cases x) (auto intro: transfer_only_trans)

lemma putc_transfer: "transfer_only h (machine (\<lambda>x. x) (uart_putc c h))"
proof (cases "pending h LSR" "\<lambda>v::u8. bit v 5" rule: first_ready)
  case (ready vs v rest)
  then show ?thesis
    by (simp add: uart_putc_def putc_wait_ready uart_write_reg_def transfer_only_def
          list_all_iff)
next
  case never
  then show ?thesis
    by (simp add: uart_putc_def putc_wait_never transfer_only_def list_all_iff)
qed

lemma getc_transfer: "transfer_only h (machine snd (uart_getc h))"
proof (cases "pending h LSR" "\<lambda>v::u8. bit v 0" rule: first_ready)
  case (ready vs v rest)
  then show ?thesis
    by (simp add: uart_getc_def getc_wait_ready uart_read_reg_def transfer_only_def
          list_all_iff split: list.splits)
next
  case never
  then show ?thesis
    by (simp add: uart_getc_def getc_wait_never transfer_only_def list_all_iff)
qed

lemma puts_transfer: "transfer_only h (machine (\<lambda>x. x) (uart_puts cs h))"
proof (induction cs arbitrary: h)
  case Nil
  show ?case by simp
next
  case (Cons c cs)
  show ?case
  proof (cases "c = 0")
    case True
    then show ?thesis by simp
  next
    case False
    have "transfer_only h (machine (\<lambda>x. x) (andthen (uart_putc c h) (uart_puts cs)))"
      by (rule transfer_andthen [OF putc_transfer]) (simp add: Cons.IH)
    with False show ?thesis by simp
  qed
qed

lemma gets_body_transfer:
  "transfer_only h (machine (\<lambda>r. snd (snd (ctl_state r))) (gets_body s (t, mem, h)))"
  unfolding gets_body_def prod.case
proof (rule transfer_andthen [OF getc_transfer], clarify)
  fix ch h1
  show "transfer_only (snd (ch, h1)) (machine (\<lambda>r. snd (snd (ctl_state r)))
     (if ch = 0x0D then
         andthen (uart_putc 0x0D h1) (\<lambda>h2.
         andthen (uart_putc 0x0A h2) (\<lambda>h3.
           Done (Break (t, mem(t := 0x00), h3))))
       else if ch = 0x08 \<or> ch = 0x7F then
         (if t > s then
            andthen (uart_puts [0x08, 0x20, 0x08, 0x00] h1) (\<lambda>h2.
              Done (Continue (t - 1, mem, h2)))
          else Done (Continue (t, mem, h1)))
       else
         andthen (uart_putc ch h1) (\<lambda>h2.
           Done (Continue (t + 1, mem(t := ch), h2)))))"
  proof -
    have lf: "transfer_only h2 (machine (\<lambda>r. snd (snd (ctl_state r)))
        (andthen (uart_putc 0x0A h2) (\<lambda>h3.
           Done (Break (t, mem(t := 0x00), h3)))))" for h2
      by (rule transfer_andthen [OF putc_transfer]) simp
    have cr: "transfer_only h1 (machine (\<lambda>r. snd (snd (ctl_state r)))
        (andthen (uart_putc 0x0D h1) (\<lambda>h2.
         andthen (uart_putc 0x0A h2) (\<lambda>h3.
           Done (Break (t, mem(t := 0x00), h3))))))"
      by (rule transfer_andthen [OF putc_transfer]) (simp add: lf)
    have er: "transfer_only h1 (machine (\<lambda>r. snd (snd (ctl_state r)))
        (andthen (uart_puts [0x08, 0x20, 0x08, 0x00] h1) (\<lambda>h2.
              Done (Continue (t - 1, mem, h2)))))"
      by (rule transfer_andthen [OF puts_transfer]) simp
    have ord: "transfer_only h1 (machine (\<lambda>r. snd (snd (ctl_state r)))
        (andthen (uart_putc ch h1) (\<lambda>h2.
           Done (Continue (t + 1, mem(t := ch), h2)))))"
      by (rule transfer_andthen [OF putc_transfer]) simp
    from cr er ord show ?thesis
      by (simp del: uart_puts.simps)
  qed
qed

lemma gets_loop_transfer:
  "transfer_only (snd (snd st)) (machine (\<lambda>r. snd (snd r)) (gets_loop s st))"
proof (induction s st rule: gets_loop.induct)
  case (1 s st)
  obtain t mem h where st: "st = (t, mem, h)"
    by (cases st)
  note body = gets_body_transfer [of h s t mem]
  show ?case
  proof (cases "gets_body s st")
    case (Done r)
    show ?thesis
    proof (cases r)
      case (Continue st')
      with Done have "transfer_only (snd (snd st')) (machine (\<lambda>r. snd (snd r)) (gets_loop s st'))"
        by (intro "1.IH") simp_all
      moreover from body Done Continue st have "transfer_only h (snd (snd st'))"
        by simp
      ultimately show ?thesis
        using Done Continue st
        by (subst gets_loop.simps) (auto intro: transfer_only_trans)
    next
      case (Break st')
      with body Done st show ?thesis
        by (subst gets_loop.simps) simp
    qed
  next
    case (Starved x)
    with body st show ?thesis
      by (subst gets_loop.simps) simp
  next
    case (Overrun x)
    with body st show ?thesis
      by (subst gets_loop.simps) simp
  qed
qed

lemma gets_transfer: "transfer_only h (machine (\<lambda>r. snd (snd r)) (uart_gets s mem h))"
  using gets_loop_transfer [of "(s, mem, h)" s]
  by (cases "gets_loop s (s, mem, h)") (auto simp add: uart_gets_def)

lemma transfer_keeps_line_control:
  assumes "transfer_only h x"
  shows "line_control (trace x) = line_control (trace h)"
proof -
  from assms obtain ev where ev: "trace x = trace h @ ev" "list_all transfer_access ev"
    by (rule transfer_onlyE)
  have "writes_to LCR ev = []"
    using ev(2) by (induction LCR ev rule: writes_to.induct) auto
  with ev(1) show ?thesis
    by (simp add: line_control_def)
qed

text \<open>
  Claim C6. The value a register holds is read here as the value last written to it
  (\<open>line_control\<close>, for Line Control). When \<^verbatim>\<open>uart_init\<close> returns, on whatever machine
  it was called, that value is \<open>0x03\<close>, whose bit 7 is clear, whatever the earlier read
  of Line Control returned: the latch is open only between two writes of \<^verbatim>\<open>uart_init\<close>
  itself. Every
  call of \<^verbatim>\<open>uart_putc\<close>, \<^verbatim>\<open>uart_puts\<close>, \<^verbatim>\<open>uart_getc\<close> and \<^verbatim>\<open>uart_gets\<close>, whether it
  returns or not, only appends reads of Line Status, reads of the data register and writes
  of the data register to the trace (\<open>transfer_only\<close>), and so leaves the value held by
  Line Control as it was: after initialization the divisor latch stays closed under any
  sequence of transfer operations.
\<close>

theorem latch_closed_after_init:
  "(uart_init h = Done h' \<longrightarrow> line_control (trace h') = Some 0x03 \<and> \<not> bit (0x03 :: u8) 7)
   \<and> transfer_only h (machine (\<lambda>x. x) (uart_putc c h))
   \<and> transfer_only h (machine (\<lambda>x. x) (uart_puts cs h))
   \<and> transfer_only h (machine snd (uart_getc h))
   \<and> transfer_only h (machine (\<lambda>r. snd (snd r)) (uart_gets s mem h))
   \<and> (transfer_only h x \<longrightarrow> line_control (trace x) = line_control (trace h))"
proof -
  have "line_control (trace h') = Some 0x03" if "uart_init h = Done h'"
    using that
    by (auto simp add: uart_init_def uart_read_reg_def uart_write_reg_def Let_def
          line_control_def split: list.splits)
  then show ?thesis
    by (simp add: putc_transfer puts_transfer getc_transfer gets_transfer
          transfer_keeps_line_control)
qed

theorem latch_closed_after_init_witness:
  "line_control (trace (machine (\<lambda>x. x) (uart_putc 0x41
     (Hw ((\<lambda>r. [])(LSR := [0x00, 0x20]))
        [Wr IER 0x00, Rd LCR 0x5C, Wr LCR 0xDC, Wr DLL 0x03, Wr DLM 0x00, Wr LCR 0x03,
         Rd IER 0x00, Wr IER 0x01])))) = Some 0x03
   \<and> uart_init (Hw ((\<lambda>r. [])(LCR := [0x5C], IER := [0x00], LSR := [0x00, 0x20])) []) =
       Done (Hw ((\<lambda>r. [])(LSR := [0x00, 0x20]))
        [Wr IER 0x00, Rd LCR 0x5C, Wr LCR 0xDC, Wr DLL 0x03, Wr DLM 0x00, Wr LCR 0x03,
         Rd IER 0x00, Wr IER 0x01])"
proof -
  let ?h0 = "Hw ((\<lambda>r. [])(LCR := [0x5C], IER := [0x00], LSR := [0x00, 0x20])) []"
  let ?h1 = "Hw ((\<lambda>r. [])(LSR := [0x00, 0x20]))
        [Wr IER 0x00, Rd LCR 0x5C, Wr LCR 0xDC, Wr DLL 0x03, Wr DLM 0x00, Wr LCR 0x03,
         Rd IER 0x00, Wr IER 0x01]"
  let ?h2 = "machine (\<lambda>x. x) (uart_putc 0x41 ?h1)"
  have init: "uart_init ?h0 = Done ?h1"
    by (simp add: uart_init_def uart_read_reg_def uart_write_reg_def fun_eq_iff)
  from latch_closed_after_init [of ?h0 ?h1] init
  have "line_control (trace ?h1) = Some 0x03"
    by blast
  moreover from latch_closed_after_init [of ?h1 _ "0x41" _ _ _ ?h2]
  have "line_control (trace ?h2) = line_control (trace ?h1)"
    by blast
  ultimately show ?thesis
    using init by simp
qed


section \<open>Backspace and DEL\<close>

lemma andthen_rekey:
  "(\<And>a. x = Done a \<Longrightarrow> k (f a) = rekey_out T g (k' a)) \<Longrightarrow>
   andthen (rekey_out T f x) k = rekey_out T g (andthen x k')"
  by (cases x) simp_all

lemma pending_rekey_LSR [simp]: "pending (rekey d pre h) LSR = pending h LSR"
  by (simp add: rekey_def)

lemma read_LSR_rekey:
  "uart_read_reg LSR (rekey d pre h) =
     rekey_out (rekey d pre) (\<lambda>(v, h'). (v, rekey d pre h')) (uart_read_reg LSR h)"
  by (auto simp add: uart_read_reg_def rekey_def fun_eq_iff split: list.splits)

lemma read_RHR_rekey:
  "uart_read_reg RHR (rekey d pre h) =
     rekey_out (rekey d pre) (\<lambda>(v, h'). (d v, rekey d pre h')) (uart_read_reg RHR h)"
  by (auto simp add: uart_read_reg_def rekey_def fun_eq_iff split: list.splits)

lemma write_rekey: "uart_write_reg r v (rekey d pre h) = rekey d pre (uart_write_reg r v h)"
  by (simp add: uart_write_reg_def rekey_def)


lemma putc_wait_rekey:
  "putc_wait (rekey d pre h) = rekey_out (rekey d pre) (rekey d pre) (putc_wait h)"
proof (induction h rule: putc_wait.induct)
  case (1 h)
  show ?case
  proof (cases "uart_read_reg LSR h")
    case (Done p)
    obtain v h' where p: "p = (v, h')" by (cases p)
    have ih: "putc_wait (rekey d pre h') = rekey_out (rekey d pre) (rekey d pre) (putc_wait h')"
      if "v AND LSR_TX_IDLE = 0"
      using "1.IH" [OF Done p [symmetric] that] .
    have l: "putc_wait (rekey d pre h) =
        (if v AND LSR_TX_IDLE = 0 then putc_wait (rekey d pre h') else Done (rekey d pre h'))"
      by (subst putc_wait.simps)
         (simp only: read_LSR_rekey Done p rekey_out.simps outcome.case prod.case)
    have r: "putc_wait h = (if v AND LSR_TX_IDLE = 0 then putc_wait h' else Done h')"
      by (subst putc_wait.simps) (simp only: Done p outcome.case prod.case)
    show ?thesis
      unfolding l r using ih by simp
  next
    case (Starved x)
    have l: "putc_wait (rekey d pre h) = Starved (rekey d pre x)"
      by (subst putc_wait.simps)
         (simp only: read_LSR_rekey Starved rekey_out.simps outcome.case)
    have r: "putc_wait h = Starved x"
      by (subst putc_wait.simps) (simp only: Starved outcome.case)
    show ?thesis
      unfolding l r by simp
  next
    case (Overrun x)
    have l: "putc_wait (rekey d pre h) = Overrun (rekey d pre x)"
      by (subst putc_wait.simps)
         (simp only: read_LSR_rekey Overrun rekey_out.simps outcome.case)
    have r: "putc_wait h = Overrun x"
      by (subst putc_wait.simps) (simp only: Overrun outcome.case)
    show ?thesis
      unfolding l r by simp
  qed
qed

lemma getc_wait_rekey:
  "getc_wait (rekey d pre h) = rekey_out (rekey d pre) (rekey d pre) (getc_wait h)"
proof (induction h rule: getc_wait.induct)
  case (1 h)
  show ?case
  proof (cases "uart_read_reg LSR h")
    case (Done p)
    obtain v h' where p: "p = (v, h')" by (cases p)
    have ih: "getc_wait (rekey d pre h') = rekey_out (rekey d pre) (rekey d pre) (getc_wait h')"
      if "v AND LSR_RX_READY = 0"
      using "1.IH" [OF Done p [symmetric] that] .
    have l: "getc_wait (rekey d pre h) =
        (if v AND LSR_RX_READY = 0 then getc_wait (rekey d pre h') else Done (rekey d pre h'))"
      by (subst getc_wait.simps)
         (simp only: read_LSR_rekey Done p rekey_out.simps outcome.case prod.case)
    have r: "getc_wait h = (if v AND LSR_RX_READY = 0 then getc_wait h' else Done h')"
      by (subst getc_wait.simps) (simp only: Done p outcome.case prod.case)
    show ?thesis
      unfolding l r using ih by simp
  next
    case (Starved x)
    have l: "getc_wait (rekey d pre h) = Starved (rekey d pre x)"
      by (subst getc_wait.simps)
         (simp only: read_LSR_rekey Starved rekey_out.simps outcome.case)
    have r: "getc_wait h = Starved x"
      by (subst getc_wait.simps) (simp only: Starved outcome.case)
    show ?thesis
      unfolding l r by simp
  next
    case (Overrun x)
    have l: "getc_wait (rekey d pre h) = Overrun (rekey d pre x)"
      by (subst getc_wait.simps)
         (simp only: read_LSR_rekey Overrun rekey_out.simps outcome.case)
    have r: "getc_wait h = Overrun x"
      by (subst getc_wait.simps) (simp only: Overrun outcome.case)
    show ?thesis
      unfolding l r by simp
  qed
qed

lemma putc_rekey:
  "uart_putc c (rekey d pre h) = rekey_out (rekey d pre) (rekey d pre) (uart_putc c h)"
  unfolding uart_putc_def putc_wait_rekey
  by (rule andthen_rekey) (simp add: write_rekey)

lemma getc_rekey:
  "uart_getc (rekey d pre h) =
     rekey_out (rekey d pre) (\<lambda>(c, h'). (d c, rekey d pre h')) (uart_getc h)"
  unfolding uart_getc_def getc_wait_rekey
  by (rule andthen_rekey) (simp add: read_RHR_rekey)

lemma puts_rekey:
  "uart_puts cs (rekey d pre h) = rekey_out (rekey d pre) (rekey d pre) (uart_puts cs h)"
proof (induction cs arbitrary: h)
  case Nil
  show ?case by simp
next
  case (Cons c cs)
  have "andthen (uart_putc c (rekey d pre h)) (uart_puts cs) =
      rekey_out (rekey d pre) (rekey d pre) (andthen (uart_putc c h) (uart_puts cs))"
    unfolding putc_rekey by (rule andthen_rekey) (simp add: Cons.IH)
  then show ?case by simp
qed

lemma gets_body_rekey:
  assumes "same_keys d"
  shows "gets_body s (t, mem, rekey d pre h) =
     rekey_out (rekey d pre) (map_ctl (\<lambda>(t, m, x). (t, m, rekey d pre x)))
       (gets_body s (t, mem, h))"
  unfolding gets_body_def prod.case getc_rekey
proof (rule andthen_rekey, clarify, goal_cases)
  case (1 c h1)
  let ?T = "rekey d pre"
  let ?g = "map_ctl (\<lambda>(t, m, x). (t, m, rekey d pre x))"
  have lf: "andthen (uart_putc 0x0A (?T h2)) (\<lambda>h3. Done (Break (t, mem(t := 0x00), h3))) =
      rekey_out ?T ?g (andthen (uart_putc 0x0A h2) (\<lambda>h3. Done (Break (t, mem(t := 0x00), h3))))"
    for h2
    unfolding putc_rekey by (rule andthen_rekey) simp
  have cr: "andthen (uart_putc 0x0D (?T h1)) (\<lambda>h2.
        andthen (uart_putc 0x0A h2) (\<lambda>h3. Done (Break (t, mem(t := 0x00), h3)))) =
      rekey_out ?T ?g (andthen (uart_putc 0x0D h1) (\<lambda>h2.
        andthen (uart_putc 0x0A h2) (\<lambda>h3. Done (Break (t, mem(t := 0x00), h3)))))"
    unfolding putc_rekey by (rule andthen_rekey) (simp add: lf)
  have er: "andthen (uart_puts [0x08, 0x20, 0x08, 0x00] (?T h1))
        (\<lambda>h2. Done (Continue (t - 1, mem, h2))) =
      rekey_out ?T ?g (andthen (uart_puts [0x08, 0x20, 0x08, 0x00] h1)
        (\<lambda>h2. Done (Continue (t - 1, mem, h2))))"
    unfolding puts_rekey by (rule andthen_rekey) simp
  have ord: "andthen (uart_putc c (?T h1)) (\<lambda>h2. Done (Continue (t + 1, mem(t := c), h2))) =
      rekey_out ?T ?g (andthen (uart_putc c h1)
        (\<lambda>h2. Done (Continue (t + 1, mem(t := c), h2))))"
    unfolding putc_rekey by (rule andthen_rekey) simp
  from assms have d: "if c = 0x08 \<or> c = 0x7F then d c = 0x08 \<or> d c = 0x7F else d c = c"
    by (simp add: same_keys_def)
  show ?case
  proof (cases "c = 0x08 \<or> c = 0x7F")
    case True
    with d have "d c = 0x08 \<or> d c = 0x7F"
      by simp
    with True er show ?thesis
      by (auto simp del: uart_puts.simps)
  next
    case False
    with d have "d c = c"
      by simp
    with False cr ord show ?thesis
      by (simp del: uart_puts.simps)
  qed
qed

lemma gets_loop_rekey:
  assumes "same_keys d"
  shows "gets_loop s (fst st, fst (snd st), rekey d pre (snd (snd st))) =
     rekey_out (rekey d pre) (\<lambda>(t, m, x). (t, m, rekey d pre x)) (gets_loop s st)"
proof (induction s st rule: gets_loop.induct)
  case (1 s st)
  obtain t mem h where st: "st = (t, mem, h)"
    by (cases st)
  let ?T = "rekey d pre"
  note body = gets_body_rekey [OF assms, of s t mem pre h]
  show ?case
  proof (cases "gets_body s st")
    case (Done r)
    show ?thesis
    proof (cases r)
      case (Continue st')
      obtain t' mem' h' where st': "st' = (t', mem', h')"
        by (cases st')
      have ih: "gets_loop s (t', mem', ?T h') =
          rekey_out ?T (\<lambda>(t, m, x). (t, m, ?T x)) (gets_loop s st')"
        using "1.IH" [OF Done Continue] st' by simp
      have l: "gets_loop s (t, mem, ?T h) = gets_loop s (t', mem', ?T h')"
        using body Done Continue st st' by (intro gets_loop_Continue) simp
      have r: "gets_loop s st = gets_loop s st'"
        using Done Continue by (intro gets_loop_Continue) simp
      show ?thesis
        unfolding r using l ih st by simp
    next
      case (Break st')
      obtain t' mem' h' where st': "st' = (t', mem', h')"
        by (cases st')
      have l: "gets_loop s (t, mem, ?T h) = Done (t', mem', ?T h')"
        using body Done Break st st' by (intro gets_loop_Break) simp
      have r: "gets_loop s st = Done st'"
        using Done Break by (intro gets_loop_Break) simp
      show ?thesis
        unfolding r using l st st' by simp
    qed
  next
    case (Starved x)
    have l: "gets_loop s (t, mem, ?T h) = Starved (?T x)"
      using body Starved st by (intro gets_loop_Starved) simp
    have r: "gets_loop s st = Starved x"
      using Starved by (intro gets_loop_Starved) simp
    show ?thesis
      unfolding r using l st by simp
  next
    case (Overrun x)
    have l: "gets_loop s (t, mem, ?T h) = Overrun (?T x)"
      using body Overrun st by (subst gets_loop.simps) simp
    have r: "gets_loop s st = Overrun x"
      using Overrun by (subst gets_loop.simps) simp
    show ?thesis
      unfolding r using l st by simp
  qed
qed

lemma gets_rekey:
  assumes "same_keys d"
  shows "uart_gets s mem (rekey d pre h) =
     rekey_out (rekey d pre) (\<lambda>(n, m, x). (n, m, rekey d pre x)) (uart_gets s mem h)"
  unfolding uart_gets_def using gets_loop_rekey [OF assms, of s "(s, mem, h)" pre]
  by (cases "gets_loop s (s, mem, h)") auto

lemma same_keys_id: "same_keys (\<lambda>c. c)"
  by (simp add: same_keys_def)

lemma same_keys_del_to_bs: "same_keys del_to_bs"
  by (simp add: same_keys_def del_to_bs_def)

lemma retype_same [simp]: "retype (\<lambda>c. c) a = a"
  by (cases a) simp_all

lemma map_retype_same [simp]: "map (retype (\<lambda>c. c)) tr = tr"
  by (induction tr) simp_all

lemma rekey_same: "rekey (\<lambda>c. c) pre x = Hw (pending x) (pre @ trace x)"
  by (simp add: rekey_def)

lemma bs_for_del_rekey:
  "bs_for_del h (rekey (\<lambda>c. c) (trace h) x) = rekey del_to_bs (trace h) x"
  by (simp add: rekey_same bs_for_del_def rekey_def)

lemma writes_to_retype [simp]: "writes_to r (map (retype d) ev) = writes_to r ev"
  by (induction r ev rule: writes_to.induct) simp_all

lemma writes_to_bs_for_del:
  "writes_to r (trace (bs_for_del h (rekey (\<lambda>c. c) (trace h) x))) =
   writes_to r (trace (rekey (\<lambda>c. c) (trace h) x))"
  by (simp add: bs_for_del_rekey) (simp add: rekey_def)

text \<open>
  Claim C3. A turn of the loop that reads a backspace (\<open>0x08\<close>) or a DEL (\<open>0x7F\<close>)
  either is still waiting for the device or goes round again with the memory unchanged:
  with the cursor past the buffer start, the cursor is one lower and the accesses after
  the read are the writes of \<open>0x08\<close>, \<open>0x20\<close>, \<open>0x08\<close>; with the cursor at the start,
  the cursor is unchanged and nothing is written. The two bytes are told apart by nothing
  in these statements. Replacing every \<open>0x7F\<close> of the pending input by \<open>0x08\<close> changes
  the outcome of \<^verbatim>\<open>uart_gets\<close> only in that the data-register reads that returned
  \<open>0x7F\<close> now return \<open>0x08\<close> (\<open>bs_for_del\<close>): the value returned and the memory are
  the same, and so are the values written to the data register.
\<close>

theorem del_handled_as_backspace:
  "(pending h RHR = c # cs \<and> (c = 0x08 \<or> c = 0x7F) \<longrightarrow>
      (\<exists>x. gets_body s (t, mem, h) = Starved x \<and> pending x LSR = []) \<or>
      (\<exists>h' ev.
         gets_body s (t, mem, h) = Done (Continue (if s < t then t - 1 else t, mem, h')) \<and>
         trace h' = trace h @ ev \<and>
         unpolled ev =
           Rd RHR c # (if s < t then [Wr THR 0x08, Wr THR 0x20, Wr THR 0x08] else []) \<and>
         pending h' RHR = cs))
   \<and> uart_gets s mem (Hw ((pending h)(RHR := map del_to_bs (pending h RHR))) (trace h)) =
       (case uart_gets s mem h of
          Done (n, mem', h') \<Rightarrow> Done (n, mem', bs_for_del h h')
        | Starved x \<Rightarrow> Starved (bs_for_del h x)
        | Overrun x \<Rightarrow> Overrun (bs_for_del h x))
   \<and> (uart_gets s mem h = Done (n, mem', h') \<longrightarrow>
        writes_to THR (trace (bs_for_del h h')) = writes_to THR (trace h'))"
proof (intro conjI impI)
  assume "pending h RHR = c # cs \<and> (c = 0x08 \<or> c = 0x7F)"
  with gets_body_turn [of h c cs s t mem]
  show "(\<exists>x. gets_body s (t, mem, h) = Starved x \<and> pending x LSR = []) \<or>
      (\<exists>h' ev.
         gets_body s (t, mem, h) = Done (Continue (if s < t then t - 1 else t, mem, h')) \<and>
         trace h' = trace h @ ev \<and>
         unpolled ev =
           Rd RHR c # (if s < t then [Wr THR 0x08, Wr THR 0x20, Wr THR 0x08] else []) \<and>
         pending h' RHR = cs)"
    by (auto simp add: turn_def)
next
  let ?h0 = "Hw (pending h) []"
  have h: "h = rekey (\<lambda>c. c) (trace h) ?h0"
    by (simp add: rekey_same)
  have hb: "Hw ((pending h)(RHR := map del_to_bs (pending h RHR))) (trace h) =
      rekey del_to_bs (trace h) ?h0"
    by (simp add: rekey_def)
  note plain = gets_rekey [OF same_keys_id, of s mem "trace h" ?h0, folded h]
  note subst = gets_rekey [OF same_keys_del_to_bs, of s mem "trace h" ?h0, folded hb]
  show "uart_gets s mem (Hw ((pending h)(RHR := map del_to_bs (pending h RHR))) (trace h)) =
       (case uart_gets s mem h of
          Done (n, mem', h') \<Rightarrow> Done (n, mem', bs_for_del h h')
        | Starved x \<Rightarrow> Starved (bs_for_del h x)
        | Overrun x \<Rightarrow> Overrun (bs_for_del h x))"
    unfolding plain subst
    by (cases "uart_gets s mem ?h0") (auto simp add: bs_for_del_rekey)
  assume "uart_gets s mem h = Done (n, mem', h')"
  with plain obtain x where "h' = rekey (\<lambda>c. c) (trace h) x"
    by (cases "uart_gets s mem ?h0") auto
  then show "writes_to THR (trace (bs_for_del h h')) = writes_to THR (trace h')"
    by (simp add: writes_to_bs_for_del)
qed

theorem del_handled_as_backspace_witness:
  "(\<exists>h'. gets_body 0x1000 (0x1001, (\<lambda>a. 0xFF)(0x1000 := 0x41),
        Hw ((\<lambda>r. [])(LSR := [0x61, 0x60, 0x60, 0x61], RHR := [0x7F, 0x0D])) []) =
        Done (Continue (0x1000, (\<lambda>a. 0xFF)(0x1000 := 0x41), h')) \<and>
      unpolled (trace h') = [Rd RHR 0x7F, Wr THR 0x08, Wr THR 0x20, Wr THR 0x08])
   \<and> (\<exists>h'. gets_body 0x1000 (0x1000, \<lambda>a. 0xFF,
        Hw ((\<lambda>r. [])(LSR := [0x61, 0x60], RHR := [0x08, 0x0D])) []) =
        Done (Continue (0x1000, \<lambda>a. 0xFF, h')) \<and>
      unpolled (trace h') = [Rd RHR 0x08])
   \<and> uart_gets 0x1000 (\<lambda>a. 0xFF)
       (Hw ((\<lambda>r. [])(LSR := [0x61, 0x21, 0x61, 0x60, 0x60, 0x61, 0x21, 0x20, 0x20],
                      RHR := [0x41, 0x08, 0x0D])) []) =
     Done (0, (\<lambda>a. 0xFF)(0x1000 := 0x00),
       bs_for_del (Hw ((\<lambda>r. [])(LSR := [0x61, 0x21, 0x61, 0x60, 0x60, 0x61, 0x21, 0x20, 0x20],
                        RHR := [0x41, 0x7F, 0x0D])) [])
         (Hw ((\<lambda>r. [])(LSR := [], RHR := []))
            [Rd LSR 0x61, Rd RHR 0x41, Rd LSR 0x21, Wr THR 0x41,
             Rd LSR 0x61, Rd RHR 0x7F, Rd LSR 0x60, Wr THR 0x08, Rd LSR 0x60, Wr THR 0x20,
             Rd LSR 0x61, Wr THR 0x08,
             Rd LSR 0x21, Rd RHR 0x0D, Rd LSR 0x20, Wr THR 0x0D, Rd LSR 0x20, Wr THR 0x0A]))
   \<and> writes_to THR (trace
       (bs_for_del (Hw ((\<lambda>r. [])(LSR := [0x61, 0x21, 0x61, 0x60, 0x60, 0x61, 0x21, 0x20, 0x20],
                        RHR := [0x41, 0x7F, 0x0D])) [])
         (Hw ((\<lambda>r. [])(LSR := [], RHR := []))
            [Rd LSR 0x61, Rd RHR 0x41, Rd LSR 0x21, Wr THR 0x41,
             Rd LSR 0x61, Rd RHR 0x7F, Rd LSR 0x60, Wr THR 0x08, Rd LSR 0x60, Wr THR 0x20,
             Rd LSR 0x61, Wr THR 0x08,
             Rd LSR 0x21, Rd RHR 0x0D, Rd LSR 0x20, Wr THR 0x0D, Rd LSR 0x20, Wr THR 0x0A]))) =
     [0x41, 0x08, 0x20, 0x08, 0x0D, 0x0A]"
  (is "?past \<and> ?start \<and> ?lhs = Done (0, ?m, bs_for_del ?h ?x) \<and> ?echo")
proof (intro conjI)
  let ?h1 = "Hw ((\<lambda>r. [])(LSR := [0x61, 0x60, 0x60, 0x61], RHR := [0x7F, 0x0D])) []"
  let ?m1 = "(\<lambda>a::int. 0xFF :: u8)(0x1000 := 0x41)"
  have "pending ?h1 RHR = 0x7F # [0x0D] \<and> (0x7F = (0x08 :: u8) \<or> 0x7F = (0x7F :: u8))"
    by simp
  from del_handled_as_backspace [THEN conjunct1, THEN mp, OF this, of "0x1000" "0x1001" ?m1]
  show ?past
    by (auto simp add: run_simps)
next
  let ?h2 = "Hw ((\<lambda>r. [])(LSR := [0x61, 0x60], RHR := [0x08, 0x0D])) []"
  have "pending ?h2 RHR = 0x08 # [0x0D] \<and> (0x08 = (0x08 :: u8) \<or> 0x08 = (0x7F :: u8))"
    by simp
  from del_handled_as_backspace [THEN conjunct1, THEN mp, OF this, of "0x1000" "0x1000"
      "\<lambda>a. 0xFF"]
  show ?start
    by (auto simp add: run_simps)
next
  have run: "uart_gets 0x1000 (\<lambda>a. 0xFF) ?h = Done (0, ?m, ?x)"
    by (simp add: run_simps fun_eq_iff)
  from del_handled_as_backspace [of ?h _ _ _ _ _ "0x1000" "\<lambda>a. 0xFF"]
  have "uart_gets 0x1000 (\<lambda>a. 0xFF)
      (Hw ((pending ?h)(RHR := map del_to_bs (pending ?h RHR))) (trace ?h)) =
       (case uart_gets 0x1000 (\<lambda>a. 0xFF) ?h of
          Done (n, mem', h') \<Rightarrow> Done (n, mem', bs_for_del ?h h')
        | Starved x \<Rightarrow> Starved (bs_for_del ?h x)
        | Overrun x \<Rightarrow> Overrun (bs_for_del ?h x))"
    by blast
  then show "?lhs = Done (0, ?m, bs_for_del ?h ?x)"
    unfolding run by (simp add: del_to_bs_def)
  from del_handled_as_backspace [THEN conjunct2, THEN conjunct2, THEN mp, OF run]
  show ?echo
    by simp
qed


section \<open>The cursor and the buffer start\<close>

lemma tally_invariant:
  "s \<le> t0 \<Longrightarrow> tally s k (t0, m0, h0) = Some (ord, era, (t, m, h)) \<Longrightarrow>
   t - t0 = int ord - int era \<and> s \<le> t \<and> (\<forall>a. a < s \<longrightarrow> m a = m0 a)"
proof (induction k arbitrary: t0 m0 h0 ord era)
  case 0
  then show ?case by simp
next
  case (Suc k)
  from Suc.prems(2) obtain st1 where body: "gets_body s (t0, m0, h0) = Done (Continue st1)"
    by (auto split: outcome.splits ctl.splits)
  obtain t1 m1 h1 where st1: "st1 = (t1, m1, h1)"
    by (cases st1)
  from Suc.prems(2) body obtain o1 e1 where rec: "tally s k st1 = Some (o1, e1, (t, m, h))"
    by (auto split: option.splits outcome.splits if_splits)
  from gets_body_Continue [OF body [unfolded st1]] obtain ch hx
    where getc: "uart_getc h0 = Done (ch, hx)"
      and step: "if ch = 0x08 \<or> ch = 0x7F then m1 = m0 \<and> t1 = (if t0 > s then t0 - 1 else t0)
        else m1 = m0(t0 := ch) \<and> t1 = t0 + 1"
    by blast
  from step Suc.prems(1) have t1: "s \<le> t1" and below: "\<forall>a. a < s \<longrightarrow> m1 a = m0 a"
    by (auto split: if_splits)
  from Suc.IH [OF t1 rec [unfolded st1]]
  have ih: "t - t1 = int o1 - int e1" "s \<le> t" "\<forall>a. a < s \<longrightarrow> m a = m1 a"
    by simp_all
  from Suc.prems(2) body rec getc
  have counts: "(ord, era) =
      (if ch = 0x08 \<or> ch = 0x7F then (if t0 > s then (o1, Suc e1) else (o1, e1))
       else (Suc o1, e1))"
    by (auto split: if_splits)
  from counts step ih(1) have "t - t0 = int ord - int era"
    by (auto split: if_splits)
  with ih(2,3) below show ?case
    by simp
qed

lemma gets_loop_tally:
  "gets_loop s st = Done r \<Longrightarrow>
   \<exists>k ord era st'. tally s k st = Some (ord, era, st') \<and> gets_body s st' = Done (Break r)"
proof (induction s st rule: gets_loop.induct)
  case (1 s st)
  show ?case
  proof (cases "gets_body s st")
    case (Done c)
    show ?thesis
    proof (cases c)
      case (Break st')
      with Done "1.prems" have "st' = r"
        by (simp add: gets_loop_Break)
      with Done Break have "tally s 0 st = Some (0, 0, st) \<and> gets_body s st = Done (Break r)"
        by simp
      then show ?thesis by blast
    next
      case (Continue st1)
      with Done "1.prems" have "gets_loop s st1 = Done r"
        by (simp add: gets_loop_Continue)
      from "1.IH" [OF Done Continue this] obtain k ord era st'
        where rec: "tally s k st1 = Some (ord, era, st')"
          and last: "gets_body s st' = Done (Break r)"
        by blast
      obtain t m h where st: "st = (t, m, h)"
        by (cases st)
      obtain t1 m1 h1 where st1: "st1 = (t1, m1, h1)"
        by (cases st1)
      from gets_body_Continue [of s t m h t1 m1 h1] Done Continue st st1
      obtain ch hx where "uart_getc h = Done (ch, hx)"
        by auto
      with Done Continue rec st have "\<exists>ord' era'. tally s (Suc k) st = Some (ord', era', st')"
        by simp
      with last show ?thesis by blast
    qed
  next
    case (Starved x)
    with "1.prems" show ?thesis
      by (simp add: gets_loop_Starved)
  next
    case (Overrun x)
    with "1.prems" show ?thesis
      by (subst (asm) gets_loop.simps) simp
  qed
qed

text \<open>
  Claim C10. Take the loop of \<^verbatim>\<open>uart_gets\<close> started with the cursor at the buffer
  start \<open>s\<close>, and any number \<open>k\<close> of turns after which it is still running. With
  \<open>ord\<close> the number of those turns that consumed an ordinary byte and \<open>era\<close> the number
  that erased a character, the cursor \<open>t\<close> satisfies \<open>t - s = ord - era\<close>, with
  \<open>era \<le> ord\<close>, so \<open>s \<le> t\<close>; the memory below \<open>s\<close> is as it was at the call; and the
  next turn changes the memory at the cursor only. When \<^verbatim>\<open>uart_gets\<close> returns, the null
  terminator was written at such a cursor \<open>t\<close>, and the value returned is \<open>t - s\<close>, the
  natural number \<open>ord - era\<close>, converted to 64 bits.
\<close>

theorem cursor_never_below_start:
  "(tally s k (s, mem, h) = Some (ord, era, (t, m, x)) \<longrightarrow>
      t - s = int ord - int era \<and> era \<le> ord \<and> s \<le> t \<and>
      (\<forall>a. a < s \<longrightarrow> m a = mem a) \<and>
      (\<forall>r. gets_body s (t, m, x) = Done r \<longrightarrow>
         (\<forall>a. a \<noteq> t \<longrightarrow> fst (snd (ctl_state r)) a = m a)))
   \<and> (uart_gets s mem h = Done (n, mem', h') \<longrightarrow>
      (\<exists>k ord era t m x.
         tally s k (s, mem, h) = Some (ord, era, (t, m, x)) \<and>
         gets_body s (t, m, x) = Done (Break (t, mem', h')) \<and>
         mem' = m(t := 0x00) \<and> s \<le> t \<and> n = of_int (t - s) \<and> n = of_nat (ord - era) \<and>
         (\<forall>a. a < s \<longrightarrow> mem' a = mem a)))"
proof (intro conjI impI)
  assume tl: "tally s k (s, mem, h) = Some (ord, era, (t, m, x))"
  from tally_invariant [OF order_refl tl]
  show "t - s = int ord - int era" and "s \<le> t" and "\<forall>a. a < s \<longrightarrow> m a = mem a"
    by simp_all
  then show "era \<le> ord"
    by simp
  show "\<forall>r. gets_body s (t, m, x) = Done r \<longrightarrow>
         (\<forall>a. a \<noteq> t \<longrightarrow> fst (snd (ctl_state r)) a = m a)"
  proof (intro allI impI)
    fix r a
    assume r: "gets_body s (t, m, x) = Done r" and a: "a \<noteq> t"
    obtain t' m' h' where "ctl_state r = (t', m', h')"
      by (cases "ctl_state r")
    with r a gets_body_Continue [of s t m x t' m' h'] gets_body_Break [of s t m x t' m' h']
    show "fst (snd (ctl_state r)) a = m a"
      by (cases r) (auto split: if_splits)
  qed
next
  assume ret: "uart_gets s mem h = Done (n, mem', h')"
  then obtain t where loop: "gets_loop s (s, mem, h) = Done (t, mem', h')"
    and n: "n = of_int (t - s)"
    by (auto simp add: uart_gets_def andthen_eq_Done)
  from gets_loop_tally [OF loop] obtain k ord era st'
    where tl: "tally s k (s, mem, h) = Some (ord, era, st')"
      and last: "gets_body s st' = Done (Break (t, mem', h'))"
    by blast
  obtain t1 m x where st': "st' = (t1, m, x)"
    by (cases st')
  from gets_body_Break [OF last [unfolded st']] have t1: "t1 = t" and mem': "mem' = m(t1 := 0x00)"
    by simp_all
  from tally_invariant [OF order_refl tl [unfolded st']]
  have inv: "t1 - s = int ord - int era" "s \<le> t1" "\<forall>a. a < s \<longrightarrow> m a = mem a"
    by simp_all
  from inv(1,2) have "t1 - s = int (ord - era)"
    by simp
  with n t1 have "n = of_int (int (ord - era))"
    by (simp only:)
  then have "n = of_nat (ord - era)"
    by (simp only: of_int_of_nat_eq)
  with tl last st' t1 mem' inv n
  show "\<exists>k ord era t m x.
         tally s k (s, mem, h) = Some (ord, era, (t, m, x)) \<and>
         gets_body s (t, m, x) = Done (Break (t, mem', h')) \<and>
         mem' = m(t := 0x00) \<and> s \<le> t \<and> n = of_int (t - s) \<and> n = of_nat (ord - era) \<and>
         (\<forall>a. a < s \<longrightarrow> mem' a = mem a)"
    by (intro exI [of _ k] exI [of _ ord] exI [of _ era] exI [of _ t] exI [of _ m] exI [of _ x])
       auto
qed

theorem cursor_never_below_start_witness:
  "tally 0x1000 (Suc (Suc (Suc (Suc 0)))) (0x1000, \<lambda>a. 0xFF,
      Hw ((\<lambda>r. [])(LSR := [0x61, 0x61, 0x61, 0x61, 0x61, 0x61, 0x61, 0x61, 0x61, 0x61,
                            0x61, 0x61],
                      RHR := [0x08, 0x41, 0x42, 0x7F, 0x0D])) []) =
     Some (2, 1, (0x1001, (\<lambda>a. 0xFF)(0x1000 := 0x41, 0x1001 := 0x42),
       Hw ((\<lambda>r. [])(LSR := [0x61, 0x61, 0x61], RHR := [0x0D]))
         [Rd LSR 0x61, Rd RHR 0x08,
          Rd LSR 0x61, Rd RHR 0x41, Rd LSR 0x61, Wr THR 0x41,
          Rd LSR 0x61, Rd RHR 0x42, Rd LSR 0x61, Wr THR 0x42,
          Rd LSR 0x61, Rd RHR 0x7F, Rd LSR 0x61, Wr THR 0x08, Rd LSR 0x61, Wr THR 0x20,
          Rd LSR 0x61, Wr THR 0x08]))
   \<and> ((0x1001 :: int) - 0x1000 = int 2 - int 1 \<and> (1 :: nat) \<le> 2 \<and> (0x1000 :: int) \<le> 0x1001)
   \<and> (\<exists>k ord era t m x mem' h'.
        uart_gets 0x1000 (\<lambda>a. 0xFF)
          (Hw ((\<lambda>r. [])(LSR := [0x61, 0x61, 0x61, 0x61, 0x61, 0x61, 0x61, 0x61, 0x61, 0x61,
                            0x61, 0x61],
                      RHR := [0x08, 0x41, 0x42, 0x7F, 0x0D])) []) = Done (1, mem', h') \<and>
        tally 0x1000 k (0x1000, \<lambda>a. 0xFF,
          Hw ((\<lambda>r. [])(LSR := [0x61, 0x61, 0x61, 0x61, 0x61, 0x61, 0x61, 0x61, 0x61, 0x61,
                            0x61, 0x61],
                      RHR := [0x08, 0x41, 0x42, 0x7F, 0x0D])) []) = Some (ord, era, (t, m, x)) \<and>
        mem' = m(t := 0x00) \<and> 0x1000 \<le> t \<and> (1 :: 64 word) = of_nat (ord - era))"
  (is "?run \<and> ?inv \<and> ?ret")
proof -
  have run: ?run
    by (simp add: run_simps fun_eq_iff)
  from cursor_never_below_start [THEN conjunct1, THEN mp, OF run]
  have inv: ?inv
    by blast
  let ?h = "Hw ((\<lambda>r. [])(LSR := [0x61, 0x61, 0x61, 0x61, 0x61, 0x61, 0x61, 0x61, 0x61, 0x61,
                            0x61, 0x61],
                      RHR := [0x08, 0x41, 0x42, 0x7F, 0x0D])) []"
  obtain mem' h' where ret: "uart_gets 0x1000 (\<lambda>a. 0xFF) ?h = Done (1, mem', h')"
    by (simp add: run_simps)
  from cursor_never_below_start [THEN conjunct2, THEN mp, OF ret] ret
  have ?ret
    by blast
  with run inv show ?thesis
    by blast
qed

section \<open>Line feed and null bytes\<close>

lemma edit_line_append: "edit_line ln (a @ b) = edit_line (edit_line ln a) b"
  by (induction a arbitrary: ln) simp_all

text \<open>
  Claim C8. A turn of the loop that reads a line feed (\<open>0x0A\<close>) either is still waiting
  for the device or echoes \<open>0x0A\<close>, stores it at the cursor, advances the cursor and goes
  round again, as for any byte that is not a carriage return, a backspace or a DEL. A turn
  leaves the loop only when the byte read is a carriage return. So an input with a line
  feed before its first carriage return is read through to the carriage return, and the
  line feed is part of the stored line.
\<close>

theorem line_feed_is_ordinary:
  "(pending h RHR = 0x0A # cs \<longrightarrow>
      (\<exists>x. gets_body s (t, mem, h) = Starved x \<and> pending x LSR = []) \<or>
      (\<exists>h' ev.
         gets_body s (t, mem, h) = Done (Continue (t + 1, mem(t := 0x0A), h')) \<and>
         trace h' = trace h @ ev \<and> unpolled ev = [Rd RHR 0x0A, Wr THR 0x0A] \<and>
         pending h' RHR = cs))
   \<and> (gets_body s (t, mem, h) = Done (Break st') \<longrightarrow> (\<exists>h1. uart_getc h = Done (0x0D, h1)))
   \<and> (pending h RHR = pre @ 0x0A # post @ 0x0D # rest \<and> 0x0D \<notin> set pre \<and> 0x0D \<notin> set post \<and>
       uart_gets s mem h = Done (n, mem', h') \<longrightarrow>
         pending h' RHR = rest \<and>
         stored mem' s (length (edit_line (edit_line [] pre @ [0x0A]) post)) =
           edit_line (edit_line [] pre @ [0x0A]) post \<and>
         n = of_nat (length (edit_line (edit_line [] pre @ [0x0A]) post)))"
proof (intro conjI impI)
  assume "pending h RHR = 0x0A # cs"
  from gets_body_turn [OF this, of s t mem]
  show "(\<exists>x. gets_body s (t, mem, h) = Starved x \<and> pending x LSR = []) \<or>
      (\<exists>h' ev.
         gets_body s (t, mem, h) = Done (Continue (t + 1, mem(t := 0x0A), h')) \<and>
         trace h' = trace h @ ev \<and> unpolled ev = [Rd RHR 0x0A, Wr THR 0x0A] \<and>
         pending h' RHR = cs)"
    by (simp add: turn_def)
next
  assume "gets_body s (t, mem, h) = Done (Break st')"
  then show "\<exists>h1. uart_getc h = Done (0x0D, h1)"
    using gets_body_Break [of s t mem h "fst st'" "fst (snd st')" "snd (snd st')"]
    by simp
next
  assume a: "pending h RHR = pre @ 0x0A # post @ 0x0D # rest \<and> 0x0D \<notin> set pre \<and>
      0x0D \<notin> set post \<and> uart_gets s mem h = Done (n, mem', h')"
  then have inp: "pending h RHR = (pre @ 0x0A # post) @ 0x0D # rest"
    and body: "0x0D \<notin> set (pre @ 0x0A # post)"
    by simp_all
  have line: "edit_line [] (pre @ 0x0A # post) = edit_line (edit_line [] pre @ [0x0A]) post"
    by (simp add: edit_line_append)
  from gets_loop_line [OF inp body, of s 0 mem] a
  have "pending h' RHR = rest \<and>
      stored mem' s (length (edit_line [] (pre @ 0x0A # post))) =
        edit_line [] (pre @ 0x0A # post) \<and>
      n = of_nat (length (edit_line [] (pre @ 0x0A # post)))"
    by (auto simp add: line_result_def uart_gets_def simp del: edit_line.simps)
  then show "pending h' RHR = rest"
    and "stored mem' s (length (edit_line (edit_line [] pre @ [0x0A]) post)) =
           edit_line (edit_line [] pre @ [0x0A]) post"
    and "n = of_nat (length (edit_line (edit_line [] pre @ [0x0A]) post))"
    unfolding line by simp_all
qed

theorem line_feed_is_ordinary_witness:
  "(\<exists>h'. gets_body 0x1000 (0x1001, \<lambda>a. 0xFF,
        Hw ((\<lambda>r. [])(LSR := [0x61, 0x20], RHR := [0x0A, 0x0D])) []) =
        Done (Continue (0x1002, (\<lambda>a. 0xFF)(0x1001 := 0x0A), h')) \<and>
      unpolled (trace h') = [Rd RHR 0x0A, Wr THR 0x0A] \<and> pending h' RHR = [0x0D])
   \<and> (\<exists>h1. uart_getc (Hw ((\<lambda>r. [])(LSR := [0x61, 0x20, 0x20], RHR := [0x0D])) []) =
        Done (0x0D, h1))
   \<and> (\<exists>mem' h'.
       uart_gets 0x1000 (\<lambda>a. 0xFF)
         (Hw ((\<lambda>r. [])(LSR := [0x61, 0x61, 0x61, 0x61, 0x61, 0x61, 0x61, 0x61, 0x61],
                          RHR := [0x41, 0x0A, 0x42, 0x0D, 0x43])) []) = Done (3, mem', h') \<and>
       pending h' RHR = [0x43] \<and> stored mem' 0x1000 3 = [0x41, 0x0A, 0x42])"
  (is "?turn \<and> ?leave \<and> ?through")
proof (intro conjI)
  let ?h1 = "Hw ((\<lambda>r. [])(LSR := [0x61, 0x20], RHR := [0x0A, 0x0D])) []"
  have inp: "pending ?h1 RHR = 0x0A # [0x0D]"
    by simp
  have "\<And>x. gets_body 0x1000 (0x1001, \<lambda>a. 0xFF, ?h1) \<noteq> Starved x"
    by (simp add: run_simps)
  with line_feed_is_ordinary [THEN conjunct1, THEN mp, OF inp, of "0x1000" "0x1001" "\<lambda>a. 0xFF"]
  show ?turn
    by auto
next
  let ?h2 = "Hw ((\<lambda>r. [])(LSR := [0x61, 0x20, 0x20], RHR := [0x0D])) []"
  obtain st' where "gets_body 0x1000 (0x1000, \<lambda>a. 0xFF, ?h2) = Done (Break st')"
    by (simp add: run_simps)
  from line_feed_is_ordinary [THEN conjunct2, THEN conjunct1, THEN mp, OF this]
  show ?leave .
next
  let ?h = "Hw ((\<lambda>r. [])(LSR := [0x61, 0x61, 0x61, 0x61, 0x61, 0x61, 0x61, 0x61, 0x61],
                        RHR := [0x41, 0x0A, 0x42, 0x0D, 0x43])) []"
  obtain mem' h' where run: "uart_gets 0x1000 (\<lambda>a. 0xFF) ?h = Done (3, mem', h')"
    by (simp add: run_simps)
  have "pending ?h RHR = [0x41] @ 0x0A # [0x42] @ 0x0D # [0x43] \<and> 0x0D \<notin> set [0x41 :: u8] \<and>
      0x0D \<notin> set [0x42 :: u8] \<and> uart_gets 0x1000 (\<lambda>a. 0xFF) ?h = Done (3, mem', h')"
    using run by simp
  from line_feed_is_ordinary [THEN conjunct2, THEN conjunct2, THEN mp, OF this]
  have "pending h' RHR = [0x43] \<and> stored mem' 0x1000 (Suc (Suc (Suc 0))) = [0x41, 0x0A, 0x42]"
    by simp
  with run show ?through
    unfolding numeral_3_eq_3 [symmetric] by blast
qed

lemma edit_line_plain:
  "\<forall>c\<in>set cs. c \<noteq> 0x08 \<and> c \<noteq> 0x7F \<Longrightarrow> edit_line ln cs = ln @ cs"
  by (induction cs arbitrary: ln) simp_all

lemma stored_nth: "i < n \<Longrightarrow> stored mem s n ! i = mem (s + int i)"
  by (simp add: stored_def)

text \<open>
  Claim C9. A turn of the loop that reads a null byte either is still waiting for the
  device or echoes the null byte, stores it at the cursor, advances the cursor and goes
  round again. So for every input with a null byte before its first carriage return,
  \<^verbatim>\<open>uart_gets\<close>, when it returns, has read through to the carriage return, the stored
  line holds the null byte like any other character, the terminator is at the end of that
  line, and the value returned is the length of the line. When the bytes before the
  carriage return hold no backspace and no DEL, the stored line is the input itself: the
  null byte is at the offset it had in the input, which is below the value returned, and
  the terminator is at the offset returned. On the input \<open>A\<close>, null, \<open>B\<close>, carriage
  return and a memory of \<open>0xFF\<close>, \<^verbatim>\<open>uart_gets\<close> returns 3 with the bytes \<open>41 00 42 00\<close>
  at the buffer start: the first null byte is at offset 1.
\<close>

theorem nul_is_ordinary:
  "(pending h RHR = 0x00 # cs \<longrightarrow>
      (\<exists>x. gets_body s (t, mem, h) = Starved x \<and> pending x LSR = []) \<or>
      (\<exists>h' ev.
         gets_body s (t, mem, h) = Done (Continue (t + 1, mem(t := 0x00), h')) \<and>
         trace h' = trace h @ ev \<and> unpolled ev = [Rd RHR 0x00, Wr THR 0x00] \<and>
         pending h' RHR = cs))
   \<and> (pending h RHR = pre @ 0x00 # post @ 0x0D # rest \<and> 0x0D \<notin> set pre \<and> 0x0D \<notin> set post \<and>
       uart_gets s mem h = Done (n, mem', h') \<longrightarrow>
         pending h' RHR = rest \<and>
         stored mem' s (length (edit_line (edit_line [] pre @ [0x00]) post)) =
           edit_line (edit_line [] pre @ [0x00]) post \<and>
         mem' (s + int (length (edit_line (edit_line [] pre @ [0x00]) post))) = 0x00 \<and>
         n = of_nat (length (edit_line (edit_line [] pre @ [0x00]) post)))
   \<and> (pending h RHR = pre @ 0x00 # post @ 0x0D # rest \<and> 0x0D \<notin> set pre \<and> 0x0D \<notin> set post \<and>
       (\<forall>c\<in>set (pre @ post). c \<noteq> 0x08 \<and> c \<noteq> 0x7F) \<and>
       uart_gets s mem h = Done (n, mem', h') \<longrightarrow>
         stored mem' s (length pre + 1 + length post) = pre @ 0x00 # post \<and>
         mem' (s + int (length pre)) = 0x00 \<and>
         mem' (s + int (length pre + 1 + length post)) = 0x00 \<and>
         n = of_nat (length pre + 1 + length post))
   \<and> uart_gets 0x1000 (\<lambda>a. 0xFF)
        (Hw ((\<lambda>r. [])(LSR := [0x61, 0x61, 0x61, 0x61, 0x61, 0x61, 0x61, 0x61, 0x61],
                        RHR := [0x41, 0x00, 0x42, 0x0D])) []) =
       Done (3, (\<lambda>a. 0xFF)(0x1000 := 0x41, 0x1001 := 0x00, 0x1002 := 0x42, 0x1003 := 0x00),
         Hw ((\<lambda>r. [])(LSR := [], RHR := []))
           [Rd LSR 0x61, Rd RHR 0x41, Rd LSR 0x61, Wr THR 0x41,
            Rd LSR 0x61, Rd RHR 0x00, Rd LSR 0x61, Wr THR 0x00,
            Rd LSR 0x61, Rd RHR 0x42, Rd LSR 0x61, Wr THR 0x42,
            Rd LSR 0x61, Rd RHR 0x0D, Rd LSR 0x61, Wr THR 0x0D, Rd LSR 0x61, Wr THR 0x0A])"
  (is "?turn \<and> ?through \<and> ?plain \<and> ?run")
proof -
  have turn: ?turn
  proof
    assume "pending h RHR = 0x00 # cs"
    from gets_body_turn [OF this, of s t mem]
    show "(\<exists>x. gets_body s (t, mem, h) = Starved x \<and> pending x LSR = []) \<or>
        (\<exists>h' ev.
           gets_body s (t, mem, h) = Done (Continue (t + 1, mem(t := 0x00), h')) \<and>
           trace h' = trace h @ ev \<and> unpolled ev = [Rd RHR 0x00, Wr THR 0x00] \<and>
           pending h' RHR = cs)"
      by (simp add: turn_def)
  qed
  have line: "edit_line [] (pre @ 0x00 # post) = edit_line (edit_line [] pre @ [0x00]) post"
    by (simp add: edit_line_append)
  have through: ?through
  proof
    assume a: "pending h RHR = pre @ 0x00 # post @ 0x0D # rest \<and> 0x0D \<notin> set pre \<and>
        0x0D \<notin> set post \<and> uart_gets s mem h = Done (n, mem', h')"
    then have inp: "pending h RHR = (pre @ 0x00 # post) @ 0x0D # rest"
      and body: "0x0D \<notin> set (pre @ 0x00 # post)"
      by simp_all
    from gets_loop_line [OF inp body, of s 0 mem] a
    have "pending h' RHR = rest \<and>
        stored mem' s (length (edit_line [] (pre @ 0x00 # post))) =
          edit_line [] (pre @ 0x00 # post) \<and>
        mem' (s + int (length (edit_line [] (pre @ 0x00 # post)))) = 0x00 \<and>
        n = of_nat (length (edit_line [] (pre @ 0x00 # post)))"
      by (auto simp add: line_result_def uart_gets_def simp del: edit_line.simps)
    then show "pending h' RHR = rest \<and>
         stored mem' s (length (edit_line (edit_line [] pre @ [0x00]) post)) =
           edit_line (edit_line [] pre @ [0x00]) post \<and>
         mem' (s + int (length (edit_line (edit_line [] pre @ [0x00]) post))) = 0x00 \<and>
         n = of_nat (length (edit_line (edit_line [] pre @ [0x00]) post))"
      unfolding line .
  qed
  have plain: ?plain
  proof
    assume a: "pending h RHR = pre @ 0x00 # post @ 0x0D # rest \<and> 0x0D \<notin> set pre \<and>
        0x0D \<notin> set post \<and> (\<forall>c\<in>set (pre @ post). c \<noteq> 0x08 \<and> c \<noteq> 0x7F) \<and>
        uart_gets s mem h = Done (n, mem', h')"
    then have keys: "\<forall>c\<in>set pre. c \<noteq> 0x08 \<and> c \<noteq> 0x7F" "\<forall>c\<in>set post. c \<noteq> 0x08 \<and> c \<noteq> 0x7F"
      by simp_all
    have L: "edit_line (edit_line [] pre @ [0x00]) post = pre @ 0x00 # post"
      by (simp add: edit_line_plain [OF keys(1)] edit_line_plain [OF keys(2)])
    from through a
    have st: "stored mem' s (length (pre @ 0x00 # post)) = pre @ 0x00 # post"
      and nulat: "mem' (s + int (length (pre @ 0x00 # post))) = 0x00"
      and n: "n = of_nat (length (pre @ 0x00 # post))"
      unfolding L by blast+
    have len: "length (pre @ 0x00 # post) = length pre + 1 + length post"
      by simp
    have "stored mem' s (length pre + 1 + length post) ! length pre = mem' (s + int (length pre))"
      by (rule stored_nth) simp
    with st have "mem' (s + int (length pre)) = 0x00"
      unfolding len by simp
    with st nulat n show "stored mem' s (length pre + 1 + length post) = pre @ 0x00 # post \<and>
         mem' (s + int (length pre)) = 0x00 \<and>
         mem' (s + int (length pre + 1 + length post)) = 0x00 \<and>
         n = of_nat (length pre + 1 + length post)"
      unfolding len by blast
  qed
  have run: ?run
    by (simp add: run_simps fun_eq_iff)
  from turn through plain run show ?thesis
    by blast
qed

theorem nul_is_ordinary_witness:
  "(\<exists>h'. gets_body 0x1000 (0x1001, \<lambda>a. 0xFF,
       Hw ((\<lambda>r. [])(LSR := [0x61, 0x20], RHR := [0x00, 0x0D])) []) =
       Done (Continue (0x1002, (\<lambda>a. 0xFF)(0x1001 := 0x00), h')) \<and>
     unpolled (trace h') = [Rd RHR 0x00, Wr THR 0x00] \<and> pending h' RHR = [0x0D])
   \<and> (\<exists>mem' h'.
       uart_gets 0x2000 (\<lambda>a. 0xEE)
         (Hw ((\<lambda>r. [])(LSR := [0x21, 0x21, 0x21, 0x21, 0x21, 0x21, 0x21, 0x21, 0x21, 0x21,
                                  0x21, 0x21, 0x21, 0x21, 0x21],
                          RHR := [0x00, 0x7F, 0x58, 0x00, 0x59, 0x0D, 0x5A])) []) =
         Done (3, mem', h') \<and>
       pending h' RHR = [0x5A] \<and> stored mem' 0x2000 3 = [0x58, 0x00, 0x59] \<and>
       mem' 0x2003 = 0x00)
   \<and> (\<exists>mem' h'.
       uart_gets 0x1000 (\<lambda>a. 0xFF)
         (Hw ((\<lambda>r. [])(LSR := [0x61, 0x61, 0x61, 0x61, 0x61, 0x61, 0x61, 0x61, 0x61],
                          RHR := [0x41, 0x00, 0x42, 0x0D])) []) = Done (3, mem', h') \<and>
       stored mem' 0x1000 3 = [0x41, 0x00, 0x42] \<and> mem' 0x1001 = 0x00 \<and> mem' 0x1003 = 0x00)"
  (is "?turn \<and> ?through \<and> ?plain")
proof -
  have turn: ?turn
  proof -
    let ?h = "Hw ((\<lambda>r. [])(LSR := [0x61, 0x20], RHR := [0x00, 0x0D])) []"
    have inp: "pending ?h RHR = 0x00 # [0x0D]"
      by simp
    have "\<And>x. gets_body 0x1000 (0x1001, \<lambda>a. 0xFF, ?h) \<noteq> Starved x"
      by (simp add: run_simps)
    with nul_is_ordinary [THEN conjunct1, THEN mp, OF inp, of "0x1000" "0x1001" "\<lambda>a. 0xFF"]
    show ?thesis
      by auto
  qed
  have through: ?through
  proof -
    let ?h = "Hw ((\<lambda>r. [])(LSR := [0x21, 0x21, 0x21, 0x21, 0x21, 0x21, 0x21, 0x21, 0x21, 0x21,
                                  0x21, 0x21, 0x21, 0x21, 0x21],
                          RHR := [0x00, 0x7F, 0x58, 0x00, 0x59, 0x0D, 0x5A])) []"
    obtain mem' h' where run: "uart_gets 0x2000 (\<lambda>a. 0xEE) ?h = Done (3, mem', h')"
      by (simp add: run_simps)
    have "pending ?h RHR = [0x00, 0x7F, 0x58] @ 0x00 # [0x59] @ 0x0D # [0x5A] \<and>
        0x0D \<notin> set [0x00, 0x7F, 0x58 :: u8] \<and> 0x0D \<notin> set [0x59 :: u8] \<and>
        uart_gets 0x2000 (\<lambda>a. 0xEE) ?h = Done (3, mem', h')"
      using run by simp
    from nul_is_ordinary [THEN conjunct2, THEN conjunct1, THEN mp, OF this]
    have "pending h' RHR = [0x5A] \<and>
        stored mem' 0x2000 (Suc (Suc (Suc 0))) = [0x58, 0x00, 0x59] \<and> mem' 0x2003 = 0x00"
      by simp
    with run show ?thesis
      unfolding numeral_3_eq_3 [symmetric] by blast
  qed
  have plain: ?plain
  proof -
    let ?h = "Hw ((\<lambda>r. [])(LSR := [0x61, 0x61, 0x61, 0x61, 0x61, 0x61, 0x61, 0x61, 0x61],
                          RHR := [0x41, 0x00, 0x42, 0x0D])) []"
    from nul_is_ordinary [THEN conjunct2, THEN conjunct2, THEN conjunct2]
    obtain mem' h' where run: "uart_gets 0x1000 (\<lambda>a. 0xFF) ?h = Done (3, mem', h')"
      by blast
    have "pending ?h RHR = [0x41] @ 0x00 # [0x42] @ 0x0D # [] \<and>
        0x0D \<notin> set [0x41 :: u8] \<and> 0x0D \<notin> set [0x42 :: u8] \<and>
        (\<forall>c\<in>set ([0x41] @ [0x42 :: u8]). c \<noteq> 0x08 \<and> c \<noteq> 0x7F) \<and>
        uart_gets 0x1000 (\<lambda>a. 0xFF) ?h = Done (3, mem', h')"
      using run by simp
    from nul_is_ordinary [THEN conjunct2, THEN conjunct2, THEN conjunct1, THEN mp, OF this]
    have "stored mem' 0x1000 (Suc (Suc (Suc 0))) = [0x41, 0x00, 0x42] \<and>
        mem' 0x1001 = 0x00 \<and> mem' 0x1003 = 0x00"
      by simp
    with run show ?thesis
      unfolding numeral_3_eq_3 [symmetric] by blast
  qed
  from turn through plain show ?thesis
    by blast
qed

end
